theory Spec2Isabelle
  imports Main
begin

section \<open>JavaScript values\<close>

text \<open>
  The plugin works on plain JavaScript data (the parsed service description), so the
  values are modelled as a datatype. An object is the list of its own enumerable
  properties in enumeration order; a well-formed object has distinct keys. Numbers are
  only compared and counted here, so they are integers.
\<close>

datatype jsval =
    JUndefined
  | JNull
  | JBool bool
  | JNum int
  | JStr string
  | JArr "jsval list"
  | JObj "(string \<times> jsval) list"

text \<open>What a \<^verbatim>\<open>throw\<close> or a rejected promise carries.\<close>

datatype js_error =
    Error string
  | TypeError string
  | Thrown jsval

text \<open>Truthiness, as tested by \<^verbatim>\<open>if (x)\<close> and by \<^verbatim>\<open>a || b\<close>.\<close>

fun truthy :: "jsval \<Rightarrow> bool" where
  "truthy JUndefined = False"
| "truthy JNull = False"
| "truthy (JBool b) = b"
| "truthy (JNum n) = (n \<noteq> 0)"
| "truthy (JStr s) = (s \<noteq> [])"
| "truthy (JArr xs) = True"
| "truthy (JObj kvs) = True"

text \<open>\<^verbatim>\<open>a || b\<close>: the first operand when it is truthy, the second otherwise.\<close>

definition js_or :: "jsval \<Rightarrow> jsval \<Rightarrow> jsval" where
  "js_or a b = (if truthy a then a else b)"

subsection \<open>Decimal numerals\<close>

definition digit_char :: "nat \<Rightarrow> char" where
  "digit_char d =
     (if d = 0 then CHR ''0'' else if d = 1 then CHR ''1'' else if d = 2 then CHR ''2''
      else if d = 3 then CHR ''3'' else if d = 4 then CHR ''4'' else if d = 5 then CHR ''5''
      else if d = 6 then CHR ''6'' else if d = 7 then CHR ''7'' else if d = 8 then CHR ''8''
      else CHR ''9'')"

fun show_nat :: "nat \<Rightarrow> string" where
  "show_nat n = (if n < 10 then [digit_char n] else show_nat (n div 10) @ [digit_char (n mod 10)])"

declare show_nat.simps [simp del]

subsection \<open>Property access and the lodash helpers\<close>

text \<open>The index keys \<^verbatim>\<open>"0"\<close>, \<^verbatim>\<open>"1"\<close>, ... of an array or a string of length \<open>n\<close>.\<close>

definition index_keys :: "nat \<Rightarrow> string list" where
  "index_keys n = map show_nat [0..<n]"

text \<open>\<^verbatim>\<open>_.keys(v)\<close>: the own enumerable property names.\<close>

fun keys_l :: "jsval \<Rightarrow> string list" where
  "keys_l (JObj kvs) = map fst kvs"
| "keys_l (JArr xs) = index_keys (length xs)"
| "keys_l (JStr s) = index_keys (length s)"
| "keys_l v = []"

text \<open>
  \<^verbatim>\<open>v[k]\<close> and \<^verbatim>\<open>v.k\<close>: reading a property of \<^verbatim>\<open>undefined\<close> or \<^verbatim>\<open>null\<close>
  throws a TypeError; a property that is absent reads as \<^verbatim>\<open>undefined\<close>.
\<close>

definition index_of_key :: "nat \<Rightarrow> string \<Rightarrow> nat option" where
  "index_of_key n k = find (\<lambda>i. show_nat i = k) [0..<n]"

fun js_get :: "jsval \<Rightarrow> string \<Rightarrow> js_error + jsval" where
  "js_get JUndefined k = Inl (TypeError (''Cannot read property '' @ k @ '' of undefined''))"
| "js_get JNull k = Inl (TypeError (''Cannot read property '' @ k @ '' of null''))"
| "js_get (JObj kvs) k = Inr (case map_of kvs k of None \<Rightarrow> JUndefined | Some v \<Rightarrow> v)"
| "js_get (JArr xs) k =
     Inr (case index_of_key (length xs) k of
            Some i \<Rightarrow> xs ! i
          | None \<Rightarrow> if k = ''length'' then JNum (int (length xs)) else JUndefined)"
| "js_get (JStr s) k =
     Inr (case index_of_key (length s) k of
            Some i \<Rightarrow> JStr [s ! i]
          | None \<Rightarrow> if k = ''length'' then JNum (int (length s)) else JUndefined)"
| "js_get (JBool b) k = Inr JUndefined"
| "js_get (JNum n) k = Inr JUndefined"

text \<open>\<^verbatim>\<open>obj[k] = v\<close> on an object: an existing key keeps its place, a new one is added last.\<close>

fun obj_put :: "(string \<times> jsval) list \<Rightarrow> string \<Rightarrow> jsval \<Rightarrow> (string \<times> jsval) list" where
  "obj_put [] k v = [(k, v)]"
| "obj_put ((k', v') # kvs) k v = (if k' = k then (k, v) # kvs else (k', v') # obj_put kvs k v)"

text \<open>The own enumerable properties of a value, as \<^verbatim>\<open>_.assign\<close> and \<^verbatim>\<open>_.map\<close> walk them.\<close>

fun own_props :: "jsval \<Rightarrow> (string \<times> jsval) list" where
  "own_props (JObj kvs) = kvs"
| "own_props (JArr xs) = zip (index_keys (length xs)) xs"
| "own_props (JStr s) = zip (index_keys (length s)) (map (\<lambda>c. JStr [c]) s)"
| "own_props v = []"

text \<open>
  \<^verbatim>\<open>_.assign(target, source)\<close> for one source: every own enumerable property of the
  source is written to the target, later writes winning. A source that is
  \<^verbatim>\<open>undefined\<close>, \<^verbatim>\<open>null\<close>, a number or a boolean contributes nothing.
\<close>

definition assign :: "(string \<times> jsval) list \<Rightarrow> jsval \<Rightarrow> (string \<times> jsval) list" where
  "assign target source = fold (\<lambda>(k, v) acc. obj_put acc k v) (own_props source) target"

text \<open>\<^verbatim>\<open>_.map(collection, f)\<close> visits the values of the collection in order.\<close>

definition values_l :: "jsval \<Rightarrow> jsval list" where
  "values_l v = map snd (own_props v)"

section \<open>Results of calls that may throw\<close>

definition bind_err :: "js_error + 'a \<Rightarrow> ('a \<Rightarrow> js_error + 'b) \<Rightarrow> js_error + 'b" where
  "bind_err m f = (case m of Inl e \<Rightarrow> Inl e | Inr x \<Rightarrow> f x)"

text \<open>Mapping a callback that may throw: the first exception ends the walk.\<close>

fun map_err :: "('a \<Rightarrow> js_error + 'b) \<Rightarrow> 'a list \<Rightarrow> js_error + 'b list" where
  "map_err f [] = Inr []"
| "map_err f (x # xs) =
     bind_err (f x) (\<lambda>y. bind_err (map_err f xs) (\<lambda>ys. Inr (y # ys)))"

section \<open>The plugin's surroundings\<close>

text \<open>A decoded archive: the text of each entry by its relative path.\<close>

type_synonym zip = "(string \<times> string) list"

text \<open>
  A \<^verbatim>\<open>Buffer\<close> returned by \<^verbatim>\<open>fs.readFileSync\<close>: an object, so it has an identity
  besides its bytes. Every read allocates a new one.
\<close>

type_synonym buffer = "nat \<times> string"

text \<open>
  What the constructor stores (\<^verbatim>\<open>this.options\<close>, the parts of \<^verbatim>\<open>this.serverless\<close>
  that \<^verbatim>\<open>deployFunction\<close> reads) and the modules the file requires but does not
  define: \<^verbatim>\<open>fs\<close>, \<^verbatim>\<open>JSZip.loadAsync\<close>, \<^verbatim>\<open>helpers.getRuntimeDepfile\<close>,
  \<^verbatim>\<open>Strategy\<close> and \<^verbatim>\<open>Config\<close>. Each of them is a parameter. A call that throws
  or a promise that rejects yields \<open>Inl\<close>.
  \<^item> \<open>service_functions\<close> is \<^verbatim>\<open>this.serverless.service.functions\<close>, in enumeration order;
  \<^item> \<open>strategy_deploy\<close> gives what the promise returned by
    \<^verbatim>\<open>(new Strategy(this.serverless)).factory().deploy(description, pkg)\<close> settles with;
  \<^item> \<open>loadAsync\<close> gives what the promise of \<^verbatim>\<open>JSZip.loadAsync(bytes)\<close> settles with;
  \<^item> \<open>config_init\<close> is \<open>None\<close> when the promise of \<^verbatim>\<open>kubelessConfig.init()\<close>
    fulfils and \<open>Some e\<close> when it rejects with \<open>e\<close>.
\<close>

record env =
  opt_package :: jsval
  service_package_path :: jsval
  service_package_artifact :: jsval
  service_package_individually :: jsval
  config_service_artifact :: jsval
  service_functions :: "(string \<times> jsval) list"
  provider_runtime :: jsval
  provider_image :: jsval
  fs_lstat_isDirectory :: "string \<Rightarrow> js_error + bool"
  fs_stat_size :: "string \<Rightarrow> js_error + nat"
  fs_read :: "string \<Rightarrow> js_error + string"
  loadAsync :: "string \<Rightarrow> js_error + zip"
  getRuntimeDepfile :: "jsval \<Rightarrow> js_error + string"
  strategy_deploy :: "jsval \<Rightarrow> jsval \<Rightarrow> js_error + jsval"
  config_init :: "js_error option"

section \<open>The state of one deployment\<close>

text \<open>The promise built by \<^verbatim>\<open>new BbPromise((resolve, reject) => ...)\<close>.\<close>

datatype promise_state = Pending | Resolved | Rejected js_error

text \<open>Calls seen by a spy on the collaborators and on the plugin's own methods.\<close>

datatype call =
    CallGetPkg string
  | CallCheckSize jsval
  | CallStrategyDeploy string jsval
  | CallGetFileContent jsval string
  | CallReadFileSync string
  | CallLoadAsync nat
  | CallDeploy

text \<open>
  Work that waits for the event loop. Each function with a handler waits first for
  its strategy's promise, then for the decoded archive; \<open>AwaitSubmit\<close> is the
  \<^verbatim>\<open>.then(() => deploy(...))\<close> callback of the fulfilled outer promise. A task carries
  the variables its callback closes over and the value its promise settles with.
\<close>

datatype task =
    AwaitStrategy string jsval jsval string "js_error + jsval"
  | AwaitZip string jsval jsval string "js_error + zip"
  | AwaitSubmit

text \<open>
  \<open>unhandled\<close> collects the rejections of promises nobody listens to; \<open>submitted\<close>
  holds the first argument of every call of \<^verbatim>\<open>deploy\<close>; \<open>zip_cache\<close> is the cache
  of \<^verbatim>\<open>_.memoize(JSZip.loadAsync)\<close>, keyed by the identity of the buffer passed in.
\<close>

record state =
  populatedFunctions :: "jsval list"
  outer :: promise_state
  cli_log :: "string list"
  calls :: "call list"
  pending :: "task list"
  unhandled :: "js_error list"
  submitted :: "jsval list list"
  next_buffer :: nat
  zip_cache :: "(nat \<times> (js_error + zip)) list"

definition init_state :: state where
  "init_state = \<lparr> populatedFunctions = [], outer = Pending, cli_log = [], calls = [],
     pending = [], unhandled = [], submitted = [], next_buffer = 0, zip_cache = [] \<rparr>"

text \<open>Sequencing of calls that change the state and may throw.\<close>

definition bindS ::
  "(state \<Rightarrow> (js_error + 'a) \<times> state) \<Rightarrow> ('a \<Rightarrow> state \<Rightarrow> (js_error + 'b) \<times> state)
     \<Rightarrow> state \<Rightarrow> (js_error + 'b) \<times> state" where
  "bindS m f s = (case m s of (Inl e, s') \<Rightarrow> (Inl e, s') | (Inr x, s') \<Rightarrow> f x s')"

definition liftE :: "js_error + 'a \<Rightarrow> state \<Rightarrow> (js_error + 'a) \<times> state" where
  "liftE r s = (r, s)"

definition spy :: "call \<Rightarrow> state \<Rightarrow> state" where
  "spy c s = s\<lparr>calls := calls s @ [c]\<rparr>"

definition cli_log_msg :: "string \<Rightarrow> state \<Rightarrow> state" where
  "cli_log_msg m s = s\<lparr>cli_log := cli_log s @ [m]\<rparr>"

section \<open>getFileContent and the memoized loadZip\<close>

text \<open>\<^verbatim>\<open>fs.readFileSync(zipFile)\<close>: throws for a path that is not a string or cannot be read.\<close>

definition readFileSync :: "env \<Rightarrow> jsval \<Rightarrow> state \<Rightarrow> (js_error + buffer) \<times> state" where
  "readFileSync env zipFile s =
     (case zipFile of
        JStr path \<Rightarrow>
          (case fs_read env path of
             Inl e \<Rightarrow> (Inl e, spy (CallReadFileSync path) s)
           | Inr bytes \<Rightarrow>
               (Inr (next_buffer s, bytes),
                (spy (CallReadFileSync path) s)\<lparr>next_buffer := Suc (next_buffer s)\<rparr>))
      | _ \<Rightarrow> (Inl (TypeError ''path must be a string or Buffer''), s))"

text \<open>
  \<^verbatim>\<open>this.loadZip = _.memoize(JSZip.loadAsync)\<close>: the cache key is the first argument,
  compared as \<^verbatim>\<open>Map\<close> keys are; for a buffer that is its identity.
\<close>

definition loadZip :: "env \<Rightarrow> buffer \<Rightarrow> state \<Rightarrow> (js_error + zip) \<times> state" where
  "loadZip env buf s =
     (case map_of (zip_cache s) (fst buf) of
        Some r \<Rightarrow> (r, s)
      | None \<Rightarrow>
          (let r = loadAsync env (snd buf)
           in (r, (spy (CallLoadAsync (fst buf)) s)\<lparr>zip_cache := zip_cache s @ [(fst buf, r)]\<rparr>)))"

text \<open>
  The synchronous part of \<^verbatim>\<open>getFileContent\<close>: the result is what the promise of
  \<^verbatim>\<open>this.loadZip(...)\<close> settles with.
\<close>

definition getFileContent ::
  "env \<Rightarrow> jsval \<Rightarrow> string \<Rightarrow> state \<Rightarrow> (js_error + (js_error + zip)) \<times> state" where
  "getFileContent env zipFile relativePath s =
     bindS (readFileSync env zipFile)
       (\<lambda>buf s'. case loadZip env buf s' of (r, s'') \<Rightarrow> (Inr r, s''))
       (spy (CallGetFileContent zipFile relativePath) s)"

text \<open>
  The callback \<^verbatim>\<open>(zip) => zip.file(relativePath).async('string')\<close>:
  \<^verbatim>\<open>zip.file\<close> returns \<^verbatim>\<open>null\<close> for an entry that is not there.
\<close>

definition read_entry :: "zip \<Rightarrow> string \<Rightarrow> js_error + string" where
  "read_entry z relativePath =
     (case map_of z relativePath of
        None \<Rightarrow> Inl (TypeError ''Cannot read property async of null'')
      | Some txt \<Rightarrow> Inr txt)"

section \<open>checkSize\<close>

definition oneMB :: nat where
  "oneMB = 1024 * 1024"

text \<open>\<^verbatim>\<open>Math.round(a / b)\<close> for natural numbers: halves round up.\<close>

definition round_div :: "nat \<Rightarrow> nat \<Rightarrow> nat" where
  "round_div a b = (2 * a + b) div (2 * b)"

definition size_warning :: "nat \<Rightarrow> string" where
  "size_warning sz =
     ''WARNING! Function zip file is '' @ show_nat (round_div sz oneMB) @ ''MB. '' @
     ''The maximum size allowed is 1MB: please use package.exclude directives to include '' @
     ''only the required files''"

definition statSync :: "env \<Rightarrow> jsval \<Rightarrow> js_error + nat" where
  "statSync env p =
     (case p of JStr path \<Rightarrow> fs_stat_size env path
      | _ \<Rightarrow> Inl (TypeError ''path must be a string or Buffer''))"

definition checkSize :: "env \<Rightarrow> jsval \<Rightarrow> state \<Rightarrow> (js_error + unit) \<times> state" where
  "checkSize env pkg s =
     bindS (liftE (statSync env pkg))
       (\<lambda>sz s'. if sz > oneMB then (Inr (), cli_log_msg (size_warning sz) s') else (Inr (), s'))
       (spy (CallCheckSize pkg) s)"

section \<open>getPkg\<close>

definition errMsg :: string where
  "errMsg = ''Expecting the Paramater to be a directory '' @
            ''for individualy packaged functions''"

text \<open>
  The chain of \<^verbatim>\<open>||\<close>: an operand is evaluated only when all before it are falsy,
  so \<^verbatim>\<open>description.package.artifact\<close> can throw only then.
\<close>

definition pkg_choice :: "env \<Rightarrow> jsval \<Rightarrow> js_error + jsval" where
  "pkg_choice env description =
     (if truthy (opt_package env) then Inr (opt_package env)
      else if truthy (service_package_path env) then Inr (service_package_path env)
      else if truthy (service_package_artifact env) then Inr (service_package_artifact env)
      else bind_err (js_get description ''package'') (\<lambda>p.
           bind_err (js_get p ''artifact'') (\<lambda>a.
           Inr (js_or a (config_service_artifact env)))))"

definition lstat_isDirectory :: "env \<Rightarrow> jsval \<Rightarrow> js_error + (string \<times> bool)" where
  "lstat_isDirectory env p =
     (case p of
        JStr path \<Rightarrow> bind_err (fs_lstat_isDirectory env path) (\<lambda>d. Inr (path, d))
      | _ \<Rightarrow> Inl (TypeError ''path must be a string or Buffer''))"

definition getPkg :: "env \<Rightarrow> jsval \<Rightarrow> string \<Rightarrow> state \<Rightarrow> (js_error + jsval) \<times> state" where
  "getPkg env description funcName s =
     bindS (liftE (pkg_choice env description))
       (\<lambda>pkg s'.
          if truthy (opt_package env) \<and> truthy (service_package_individually env) then
            bindS (liftE (lstat_isDirectory env pkg))
              (\<lambda>(path, isdir) s''.
                 if isdir then (Inr (JStr (path @ funcName @ ''.zip'')), s'')
                 else (Inl (Error errMsg), cli_log_msg errMsg s''))
              s'
          else (Inr pkg, s'))
       (spy (CallGetPkg funcName) s)"

section \<open>deployFunction\<close>

subsection \<open>The normalized events\<close>

text \<open>
  \<^verbatim>\<open>_.keys(event)[0]\<close> is \<^verbatim>\<open>undefined\<close> for an event without keys; as a property
  name \<^verbatim>\<open>undefined\<close> reads the property called "undefined".
\<close>

definition first_key :: "jsval \<Rightarrow> string option" where
  "first_key event = (case keys_l event of [] \<Rightarrow> None | k # ks \<Rightarrow> Some k)"

definition key_val :: "string option \<Rightarrow> jsval" where
  "key_val t = (case t of None \<Rightarrow> JUndefined | Some k \<Rightarrow> JStr k)"

definition key_name :: "string option \<Rightarrow> string" where
  "key_name t = (case t of None \<Rightarrow> ''undefined'' | Some k \<Rightarrow> k)"

text \<open>The callback given to \<^verbatim>\<open>_.map(description.events, ...)\<close>.\<close>

definition normalize_event :: "jsval \<Rightarrow> js_error + jsval" where
  "normalize_event event =
     (let type = first_key event in
      if type = Some ''trigger'' then
        bind_err (js_get event (key_name type)) (\<lambda>v.
          Inr (JObj (assign [(''type'', key_val type)] (JObj [(''trigger'', v)]))))
      else if type = Some ''schedule'' then
        bind_err (js_get event (key_name type)) (\<lambda>v.
          Inr (JObj (assign [(''type'', key_val type)] (JObj [(''schedule'', v)]))))
      else
        bind_err (js_get event (key_name type)) (\<lambda>v.
          Inr (JObj (assign [(''type'', key_val type)] v))))"

definition normalize_events :: "jsval \<Rightarrow> js_error + jsval list" where
  "normalize_events events = map_err normalize_event (values_l events)"

subsection \<open>The populated records\<close>

text \<open>
  The record pushed for a function with a handler:
  \<^verbatim>\<open>_.assign({}, description, deployOptions, {id, deps, image, events})\<close>.
\<close>

definition populated_record ::
  "env \<Rightarrow> string \<Rightarrow> jsval \<Rightarrow> jsval \<Rightarrow> jsval \<Rightarrow> js_error + jsval" where
  "populated_record env name description deployOptions requirementsContent =
     bind_err (js_get description ''image'') (\<lambda>image.
     bind_err (js_get description ''events'') (\<lambda>events.
     bind_err (normalize_events events) (\<lambda>evs.
       Inr (JObj (assign (assign (assign [] description) deployOptions)
              (JObj [(''id'', JStr name),
                     (''deps'', requirementsContent),
                     (''image'', js_or image (provider_image env)),
                     (''events'', JArr evs)]))))))"

text \<open>The record pushed for a function without one: \<^verbatim>\<open>_.assign({}, description, { id: name })\<close>.\<close>

definition plain_record :: "string \<Rightarrow> jsval \<Rightarrow> jsval" where
  "plain_record name description = JObj (assign (assign [] description) (JObj [(''id'', JStr name)]))"

subsection \<open>The outer promise and the barrier\<close>

text \<open>
  \<^verbatim>\<open>resolve()\<close> and \<^verbatim>\<open>reject(e)\<close> settle the outer promise once; on a settled promise
  they do nothing. Fulfilling it queues the \<^verbatim>\<open>.then(() => deploy(...))\<close> callback.
\<close>

definition resolve :: "state \<Rightarrow> state" where
  "resolve s = (if outer s = Pending then s\<lparr>outer := Resolved, pending := pending s @ [AwaitSubmit]\<rparr> else s)"

definition reject :: "js_error \<Rightarrow> state \<Rightarrow> state" where
  "reject e s = (if outer s = Pending then s\<lparr>outer := Rejected e\<rparr> else s)"

definition push_populated :: "jsval \<Rightarrow> state \<Rightarrow> state" where
  "push_populated r s = s\<lparr>populatedFunctions := populatedFunctions s @ [r]\<rparr>"

definition barrier_check :: "env \<Rightarrow> state \<Rightarrow> state" where
  "barrier_check env s =
     (if length (populatedFunctions s) = length (keys_l (JObj (service_functions env)))
      then resolve s else s)"

subsection \<open>The loop over the functions\<close>

text \<open>
  The callback of \<^verbatim>\<open>_.each(this.serverless.service.functions, ...)\<close>. For a function
  with a handler it starts the strategy's deploy and returns; the rest of that branch
  runs from the event loop.
\<close>

definition each_body :: "env \<Rightarrow> string \<Rightarrow> jsval \<Rightarrow> state \<Rightarrow> (js_error + unit) \<times> state" where
  "each_body env name description =
     bindS (getPkg env description name) (\<lambda>pkg.
     bindS (checkSize env pkg) (\<lambda>u.
     bindS (liftE (js_get description ''handler'')) (\<lambda>handler.
       if truthy handler then
         bindS (liftE (js_get description ''runtime'')) (\<lambda>rt.
         bindS (liftE (getRuntimeDepfile env (js_or rt (provider_runtime env)))) (\<lambda>depFile s.
           (Inr (),
            (spy (CallStrategyDeploy name pkg) s)
              \<lparr>pending := pending s @
                 [AwaitStrategy name description pkg depFile (strategy_deploy env description pkg)]\<rparr>)))
       else
         (\<lambda>s. (Inr (), barrier_check env (push_populated (plain_record name description) s))))))"

text \<open>
  \<^verbatim>\<open>_.each\<close> runs inside the \<^verbatim>\<open>then\<close> callback of \<^verbatim>\<open>kubelessConfig.init()\<close>. The
  promise that \<^verbatim>\<open>then\<close> returns is dropped, so an exception in the loop ends the loop
  and is left as an unhandled rejection.
\<close>

fun each_functions :: "env \<Rightarrow> (string \<times> jsval) list \<Rightarrow> state \<Rightarrow> state" where
  "each_functions env [] s = s"
| "each_functions env ((name, description) # rest) s =
     (case each_body env name description s of
        (Inl e, s') \<Rightarrow> s'\<lparr>unhandled := unhandled s' @ [e]\<rparr>
      | (Inr u, s') \<Rightarrow> each_functions env rest s')"

subsection \<open>The callbacks run by the event loop\<close>

text \<open>
  \<open>AwaitStrategy\<close>: \<^verbatim>\<open>.catch(reject)\<close> passes a rejection to \<^verbatim>\<open>reject\<close> and fulfils
  with \<^verbatim>\<open>undefined\<close>, so the \<^verbatim>\<open>then\<close> callback runs in both cases and calls
  \<^verbatim>\<open>getFileContent\<close>.
  \<open>AwaitZip\<close>: \<^verbatim>\<open>.catch(() => {})\<close> turns every failure of the read into
  \<^verbatim>\<open>undefined\<close>; the record is pushed and the barrier checked.
  \<open>AwaitSubmit\<close>: the call of \<^verbatim>\<open>deploy\<close>.
\<close>

definition requirements_of :: "js_error + zip \<Rightarrow> string \<Rightarrow> jsval" where
  "requirements_of zr depFile =
     (case bind_err zr (\<lambda>z. read_entry z depFile) of
        Inl e \<Rightarrow> JUndefined
      | Inr txt \<Rightarrow> JStr txt)"

fun run_task :: "env \<Rightarrow> task \<Rightarrow> state \<Rightarrow> state" where
  "run_task env (AwaitStrategy name description pkg depFile r) s =
     (let s1 = (case r of Inl e \<Rightarrow> reject e s | Inr v \<Rightarrow> s);
          deployOptions = (case r of Inl e \<Rightarrow> JUndefined | Inr v \<Rightarrow> v)
      in case getFileContent env pkg depFile s1 of
           (Inl e, s2) \<Rightarrow> s2\<lparr>unhandled := unhandled s2 @ [e]\<rparr>
         | (Inr zr, s2) \<Rightarrow>
             s2\<lparr>pending := pending s2 @ [AwaitZip name description deployOptions depFile zr]\<rparr>)"
| "run_task env (AwaitZip name description deployOptions depFile zr) s =
     (case populated_record env name description deployOptions (requirements_of zr depFile) of
        Inl e \<Rightarrow> s\<lparr>unhandled := unhandled s @ [e]\<rparr>
      | Inr r \<Rightarrow> barrier_check env (push_populated r s))"
| "run_task env AwaitSubmit s =
     (spy CallDeploy s)\<lparr>submitted := submitted s @ [populatedFunctions s]\<rparr>"

text \<open>
  One turn of the event loop: the waiting task number \<open>i\<close> settles and its callback
  runs. A schedule is the list of these choices; a choice that names no waiting task
  changes nothing.
\<close>

definition step :: "env \<Rightarrow> nat \<Rightarrow> state \<Rightarrow> state" where
  "step env i s =
     (if i < length (pending s)
      then run_task env (pending s ! i) (s\<lparr>pending := take i (pending s) @ drop (Suc i) (pending s)\<rparr>)
      else s)"

definition run :: "env \<Rightarrow> nat list \<Rightarrow> state \<Rightarrow> state" where
  "run env sched s = fold (step env) sched s"

text \<open>
  \<^verbatim>\<open>deployFunction\<close> under a schedule. When \<^verbatim>\<open>kubelessConfig.init()\<close> rejects its
  \<^verbatim>\<open>then\<close> callback never runs.
\<close>

definition deployFunction :: "env \<Rightarrow> nat list \<Rightarrow> state" where
  "deployFunction env sched =
     (case config_init env of
        Some e \<Rightarrow> init_state\<lparr>unhandled := [e]\<rparr>
      | None \<Rightarrow> run env sched (each_functions env (service_functions env) init_state))"

section \<open>Example surroundings\<close>

text \<open>
  A service with one artifact for all functions, used to run the definitions on
  concrete inputs. \<^verbatim>\<open>/out\<close> is a directory, \<^verbatim>\<open>big.zip\<close> has 1,048,577 bytes
  and every other file 1,048,576; the archive holds no dependency manifest.
\<close>

definition env_example :: env where
  "env_example = \<lparr> opt_package = JUndefined, service_package_path = JUndefined,
     service_package_artifact = JStr ''a.zip'', service_package_individually = JUndefined,
     config_service_artifact = JUndefined,
     service_functions = [],
     provider_runtime = JStr ''python2.7'', provider_image = JUndefined,
     fs_lstat_isDirectory = (\<lambda>p. Inr (p = ''/out'' \<or> p = ''/out/'')),
     fs_stat_size = (\<lambda>p. if p = ''big.zip'' then Inr 1048577 else Inr 1048576),
     fs_read = (\<lambda>p. Inr ''PK''),
     loadAsync = (\<lambda>b. Inr [(''handler.py'', ''def main'')]),
     getRuntimeDepfile = (\<lambda>r. Inr ''requirements.txt''),
     strategy_deploy = (\<lambda>d p. Inr (JObj [(''content'', JStr ''xx'')])),
     config_init = None \<rparr>"

text \<open>The event list of a function declaring a trigger, a schedule and an HTTP route.\<close>

definition events_example :: "jsval list" where
  "events_example = [JObj [(''trigger'', JStr ''t1'')], JObj [(''schedule'', JStr ''* * * * *'')],
     JObj [(''http'', JObj [(''path'', JStr ''/x'')])]]"

section \<open>Invariants of the barrier\<close>

text \<open>
  A branch task belongs to one declared function; \<open>capacity\<close> counts the records
  pushed so far and the branches still under way, \<open>submit_count\<close> the calls of
  \<^verbatim>\<open>deploy\<close> made or queued.
\<close>

fun is_branch :: "task \<Rightarrow> bool" where
  "is_branch AwaitSubmit = False"
| "is_branch t = True"

fun failing :: "task \<Rightarrow> bool" where
  "failing (AwaitStrategy name description pkg depFile r) = isl r"
| "failing t = False"

fun is_rejected :: "promise_state \<Rightarrow> bool" where
  "is_rejected (Rejected e) = True"
| "is_rejected p = False"

definition capacity :: "state \<Rightarrow> nat" where
  "capacity s = length (populatedFunctions s) + length (filter is_branch (pending s))"

definition submit_count :: "state \<Rightarrow> nat" where
  "submit_count s = length (filter (\<lambda>t. \<not> is_branch t) (pending s)) + length (submitted s)"

text \<open>The part of the state that the barrier depends on.\<close>

definition core :: "state \<Rightarrow> jsval list \<times> promise_state \<times> task list \<times> js_error list \<times> jsval list list" where
  "core s = (populatedFunctions s, outer s, pending s, unhandled s, submitted s)"

text \<open>
  With \<open>N\<close> declared functions: at most \<open>N\<close> records can ever be pushed; the
  submission exists exactly when the outer promise is fulfilled, which needs \<open>N\<close>
  records; and with \<open>N\<close> records pushed the outer promise is settled.
\<close>

definition barrier_inv :: "nat \<Rightarrow> state \<Rightarrow> bool" where
  "barrier_inv N s \<longleftrightarrow>
     capacity s \<le> N
     \<and> submit_count s = (if outer s = Resolved then 1 else 0)
     \<and> (outer s = Resolved \<longrightarrow> length (populatedFunctions s) = N)
     \<and> (\<forall>p\<in>set (submitted s). p = populatedFunctions s)
     \<and> (0 < N \<and> length (populatedFunctions s) = N \<longrightarrow> outer s \<noteq> Pending)"

text \<open>What keeps the outer promise from being fulfilled.\<close>

definition abort_guard :: "nat \<Rightarrow> state \<Rightarrow> bool" where
  "abort_guard N s \<longleftrightarrow>
     is_rejected (outer s) \<or> capacity s < N \<or> (\<exists>t\<in>set (pending s). failing t)"

text \<open>
  A declaration with a handler for which the strategy's deploy, called with the
  artifact that \<^verbatim>\<open>getPkg\<close> resolves, returns a promise that rejects.
\<close>

definition strategy_fails :: "env \<Rightarrow> string \<Rightarrow> jsval \<Rightarrow> bool" where
  "strategy_fails env name description \<longleftrightarrow>
     (\<exists>h. js_get description ''handler'' = Inr h \<and> truthy h)
     \<and> (\<forall>pkg. fst (getPkg env description name init_state) = Inr pkg
              \<longrightarrow> isl (strategy_deploy env description pkg))"

text \<open>
  Variants: one function without a handler; one function with a handler; the same with
  a strategy whose deploy rejects; the same with an explicit package path that is a
  file, under individual packaging; two functions whose deploys reject with different
  values.
\<close>

definition env_plain :: env where
  "env_plain = env_example\<lparr>service_functions := [(''g'', JObj [(''memorySize'', JNum 128)])]\<rparr>"

definition env_handler :: env where
  "env_handler = env_example\<lparr>service_functions :=
     [(''f'', JObj [(''handler'', JStr ''h.main''), (''events'', JArr events_example)])]\<rparr>"

definition env_failing :: env where
  "env_failing = env_handler\<lparr>strategy_deploy := (\<lambda>d p. Inl (Error ''upload failed''))\<rparr>"

definition env_nondir :: env where
  "env_nondir = env_handler\<lparr>opt_package := JStr ''/tmp/pkg.zip'',
     service_package_individually := JBool True\<rparr>"

definition env_two_failing :: env where
  "env_two_failing = env_example\<lparr>service_functions :=
       [(''f1'', JObj [(''handler'', JStr ''a.main'')]), (''f2'', JObj [(''handler'', JStr ''b.main'')])],
     strategy_deploy := (\<lambda>d p. Inl (Thrown d))\<rparr>"


text \<open>Every key of the memoize cache is the identity of a buffer allocated earlier.\<close>

definition fresh_buffers :: "state \<Rightarrow> bool" where
  "fresh_buffers s \<longleftrightarrow> (\<forall>k\<in>fst ` set (zip_cache s). k < next_buffer s)"

section \<open>Properties\<close>

subsection \<open>Sequencing\<close>


lemma bindS_liftE_Inl: "bindS (liftE (Inl e)) f s = (Inl e, s)"
  by (simp add: bindS_def liftE_def)

subsection \<open>checkSize\<close>

text \<open>\<open>round_div a b\<close> is the integer nearest to \<open>a / b\<close>, halves going up.\<close>

lemma round_div_nearest:
  assumes "0 < b"
  shows "2 * b * round_div a b \<le> 2 * a + b \<and> 2 * a + b < 2 * b * Suc (round_div a b)"
proof -
  have "0 < 2 * b" using assms by simp
  then have "(2 * a + b) mod (2 * b) < 2 * b" by (rule mod_less_divisor)
  moreover have "2 * b * ((2 * a + b) div (2 * b)) + (2 * a + b) mod (2 * b) = 2 * a + b"
    by (rule mult_div_mod_eq)
  ultimately show ?thesis
    unfolding round_div_def by (simp add: algebra_simps)
qed



subsection \<open>Objects as maps\<close>

lemma map_of_obj_put: "map_of (obj_put kvs k v) = (map_of kvs)(k \<mapsto> v)"
  by (induction kvs k v rule: obj_put.induct) auto

lemma map_of_fold_put:
  "map_of (fold (\<lambda>(k, v) acc. obj_put acc k v) xs t) = map_of t ++ map_of (rev xs)"
proof (induction xs arbitrary: t)
  case Nil
  then show ?case by simp
next
  case (Cons x xs)
  obtain k v where x: "x = (k, v)" by (cases x)
  have "map_of (obj_put t k v) ++ map_of (rev xs) = map_of t ++ ([k \<mapsto> v] ++ map_of (rev xs))"
  proof (rule ext)
    fix j
    show "(map_of (obj_put t k v) ++ map_of (rev xs)) j = (map_of t ++ ([k \<mapsto> v] ++ map_of (rev xs))) j"
      by (auto simp add: map_of_obj_put map_add_def split: option.splits)
  qed
  then show ?case
    using Cons.IH [of "obj_put t k v"] by (simp add: x)
qed

lemma map_of_assign_obj: "map_of (assign t (JObj kvs)) = map_of t ++ map_of (rev kvs)"
  by (simp add: assign_def map_of_fold_put)

lemma map_of_rev_distinct: "distinct (map fst kvs) \<Longrightarrow> map_of (rev kvs) = map_of kvs"
  by (simp add: map_of_inject_set distinct_map)

lemma length_index_keys: "length (index_keys n) = n"
  by (simp add: index_keys_def)

lemma values_l_JArr: "values_l (JArr xs) = xs"
  by (simp add: values_l_def length_index_keys)

lemma map_err_Inr:
  "map_err f xs = Inr ys \<Longrightarrow> length ys = length xs \<and> (\<forall>i<length xs. f (xs ! i) = Inr (ys ! i))"
proof (induction xs arbitrary: ys)
  case Nil
  then show ?case by simp
next
  case (Cons x xs)
  from Cons.prems obtain y ys' where y: "f x = Inr y" and ys': "map_err f xs = Inr ys'" and e: "ys = y # ys'"
    by (auto simp: bind_err_def split: sum.splits)
  from Cons.IH [OF ys'] show ?case
    by (auto simp: e y nth_Cons split: nat.splits)
qed

lemma map_err_total:
  "\<forall>x\<in>set xs. \<exists>y. f x = Inr y \<Longrightarrow> \<exists>ys. map_err f xs = Inr ys"
  by (induction xs) (auto simp: bind_err_def)

lemma normalize_event_obj_total: "\<exists>y. normalize_event (JObj kvs) = Inr y"
  by (simp add: normalize_event_def Let_def bind_err_def)

subsection \<open>Event normalization\<close>

text \<open>
  C6. An event whose first key is \<^verbatim>\<open>trigger\<close> becomes
  \<^verbatim>\<open>{type: "trigger", trigger: value}\<close>, one whose first key is \<^verbatim>\<open>schedule\<close>
  becomes \<^verbatim>\<open>{type: "schedule", schedule: value}\<close>, and an event of any other kind
  with an object as payload becomes \<^verbatim>\<open>{type: kind}\<close> extended by the payload's own
  fields at the top level (a payload field named \<^verbatim>\<open>type\<close> wins, as in a spread).
  A list of event objects is normalized element by element, in the order given.
\<close>

theorem normalize_events_rule:
  "normalize_event (JObj ((''trigger'', v) # rest)) =
      Inr (JObj [(''type'', JStr ''trigger''), (''trigger'', v)])
   \<and> normalize_event (JObj ((''schedule'', v) # rest)) =
      Inr (JObj [(''type'', JStr ''schedule''), (''schedule'', v)])
   \<and> (k \<noteq> ''trigger'' \<and> k \<noteq> ''schedule'' \<and> distinct (map fst payload) \<longrightarrow>
        (\<exists>r. normalize_event (JObj ((k, JObj payload) # rest)) = Inr (JObj r)
             \<and> map_of r = [''type'' \<mapsto> JStr k] ++ map_of payload))
   \<and> ((\<forall>e\<in>set evs. \<exists>kvs. e = JObj kvs) \<longrightarrow>
        (\<exists>ys. normalize_events (JArr evs) = Inr ys \<and> length ys = length evs
              \<and> (\<forall>i<length evs. normalize_event (evs ! i) = Inr (ys ! i))))"
proof (intro conjI impI)
  show "normalize_event (JObj ((''trigger'', v) # rest)) =
      Inr (JObj [(''type'', JStr ''trigger''), (''trigger'', v)])"
    by (simp add: normalize_event_def first_key_def key_name_def key_val_def bind_err_def assign_def)
  show "normalize_event (JObj ((''schedule'', v) # rest)) =
      Inr (JObj [(''type'', JStr ''schedule''), (''schedule'', v)])"
    by (simp add: normalize_event_def first_key_def key_name_def key_val_def bind_err_def assign_def)
next
  assume h: "k \<noteq> ''trigger'' \<and> k \<noteq> ''schedule'' \<and> distinct (map fst payload)"
  then have "normalize_event (JObj ((k, JObj payload) # rest)) =
      Inr (JObj (assign [(''type'', JStr k)] (JObj payload)))"
    by (simp add: normalize_event_def first_key_def key_name_def key_val_def bind_err_def)
  moreover have "map_of (assign [(''type'', JStr k)] (JObj payload)) = [''type'' \<mapsto> JStr k] ++ map_of payload"
    using h by (simp add: map_of_assign_obj map_of_rev_distinct)
  ultimately show "\<exists>r. normalize_event (JObj ((k, JObj payload) # rest)) = Inr (JObj r)
             \<and> map_of r = [''type'' \<mapsto> JStr k] ++ map_of payload"
    by blast
next
  assume h: "\<forall>e\<in>set evs. \<exists>kvs. e = JObj kvs"
  then have "\<forall>e\<in>set evs. \<exists>y. normalize_event e = Inr y"
    using normalize_event_obj_total by (metis)
  then obtain ys where ys: "map_err normalize_event evs = Inr ys"
    using map_err_total by blast
  then show "\<exists>ys. normalize_events (JArr evs) = Inr ys \<and> length ys = length evs
              \<and> (\<forall>i<length evs. normalize_event (evs ! i) = Inr (ys ! i))"
    using map_err_Inr [OF ys] by (simp add: normalize_events_def values_l_JArr)
qed

theorem normalize_events_rule_witness:
  "''http'' \<noteq> ''trigger'' \<and> ''http'' \<noteq> ''schedule'' \<and> distinct (map fst [(''path'', JStr ''/x'')])
   \<and> (\<exists>r. normalize_event (JObj [(''http'', JObj [(''path'', JStr ''/x'')])]) = Inr (JObj r)
          \<and> map_of r = [''type'' \<mapsto> JStr ''http''] ++ map_of [(''path'', JStr ''/x'')])
   \<and> (\<exists>ys. normalize_events (JArr events_example) = Inr ys \<and> length ys = 3
          \<and> normalize_event (events_example ! 0) = Inr (ys ! 0)
          \<and> normalize_event (events_example ! 2) = Inr (ys ! 2))"
proof -
  have a: "''http'' \<noteq> ''trigger'' \<and> ''http'' \<noteq> ''schedule'' \<and> distinct (map fst [(''path'', JStr ''/x'')])"
    by simp
  have b: "\<forall>e\<in>set events_example. \<exists>kvs. e = JObj kvs"
    by (simp add: events_example_def)
  have l: "length events_example = 3"
    by (simp add: events_example_def)
  from normalize_events_rule [where k = "''http''" and payload = "[(''path'', JStr ''/x'')]" and rest = "[]" and evs = events_example] a b
  have c: "\<exists>r. normalize_event (JObj [(''http'', JObj [(''path'', JStr ''/x'')])]) = Inr (JObj r)
          \<and> map_of r = [''type'' \<mapsto> JStr ''http''] ++ map_of [(''path'', JStr ''/x'')]"
    and d: "\<exists>ys. normalize_events (JArr events_example) = Inr ys \<and> length ys = length events_example
              \<and> (\<forall>i<length events_example. normalize_event (events_example ! i) = Inr (ys ! i))"
    by blast+
  from d l have d': "\<exists>ys. normalize_events (JArr events_example) = Inr ys \<and> length ys = 3
          \<and> normalize_event (events_example ! 0) = Inr (ys ! 0)
          \<and> normalize_event (events_example ! 2) = Inr (ys ! 2)"
    by auto
  from a c d' show ?thesis by blast
qed

text \<open>The example of the specification, computed.\<close>

lemma normalize_events_example:
  "normalize_events (JArr events_example) =
     Inr [JObj [(''type'', JStr ''trigger''), (''trigger'', JStr ''t1'')],
          JObj [(''type'', JStr ''schedule''), (''schedule'', JStr ''* * * * *'')],
          JObj [(''type'', JStr ''http''), (''path'', JStr ''/x'')]]"
  by (simp add: normalize_events_def values_l_JArr events_example_def normalize_event_def
      first_key_def key_name_def key_val_def bind_err_def assign_def)

subsection \<open>getPkg\<close>

text \<open>
  C7. With an explicit package path and individual packaging, \<^verbatim>\<open>getPkg\<close> appends
  the function name and \<^verbatim>\<open>.zip\<close> to the path as it was given, without a separator:
  \<^verbatim>\<open>/out/\<close> resolves to \<^verbatim>\<open>/out/foo.zip\<close>, but the directory \<^verbatim>\<open>/out\<close>
  resolves to \<^verbatim>\<open>/outfoo.zip\<close>, a path outside that directory.
\<close>

theorem getPkg_plain_concatenation:
  "fst (getPkg (env_example\<lparr>opt_package := JStr ''/out/'', service_package_individually := JBool True\<rparr>)
         (JObj []) ''foo'' init_state) = Inr (JStr ''/out/foo.zip'')
   \<and> fst (getPkg (env_example\<lparr>opt_package := JStr ''/out'', service_package_individually := JBool True\<rparr>)
         (JObj []) ''foo'' init_state) = Inr (JStr ''/outfoo.zip'')"
  by (simp add: getPkg_def pkg_choice_def lstat_isDirectory_def bindS_def liftE_def bind_err_def
      env_example_def)

subsection \<open>getFileContent\<close>

text \<open>
  The memoize cache never answers: the buffer handed to \<^verbatim>\<open>loadZip\<close> is always
  newer than every key in the cache, so each call on a readable file reads and decodes.
\<close>

lemma getFileContent_never_hits:
  assumes "fresh_buffers s" and "fs_read env path = Inr bytes"
  shows "calls (snd (getFileContent env (JStr path) f s)) =
           calls s @ [CallGetFileContent (JStr path) f, CallReadFileSync path, CallLoadAsync (next_buffer s)]
       \<and> fresh_buffers (snd (getFileContent env (JStr path) f s))"
proof -
  from assms(1) have "next_buffer s \<notin> fst ` set (zip_cache s)"
    by (auto simp: fresh_buffers_def)
  then have m: "map_of (zip_cache s) (next_buffer s) = None"
    by (simp add: map_of_eq_None_iff)
  show ?thesis
    using assms m
    by (auto simp: getFileContent_def readFileSync_def loadZip_def bindS_def spy_def Let_def
        fresh_buffers_def less_Suc_eq)
qed

text \<open>
  C3. Two reads of the same archive path, for two different entries: each call reads
  the file from disk, and each call decodes it, because the memoized \<^verbatim>\<open>loadZip\<close> is
  keyed by the buffer just read and that buffer is a new object every time.
\<close>

theorem getFileContent_decodes_again:
  "calls (snd (getFileContent env_example (JStr ''a.zip'') ''package.json''
            (snd (getFileContent env_example (JStr ''a.zip'') ''requirements.txt'' init_state)))) =
     [CallGetFileContent (JStr ''a.zip'') ''requirements.txt'', CallReadFileSync ''a.zip'', CallLoadAsync 0,
      CallGetFileContent (JStr ''a.zip'') ''package.json'', CallReadFileSync ''a.zip'', CallLoadAsync 1]"
  by (simp add: getFileContent_def readFileSync_def loadZip_def bindS_def spy_def init_state_def
      env_example_def Let_def)

subsection \<open>What the synchronous calls leave alone\<close>

lemma core_spy [simp]: "core (spy c s) = core s"
  by (simp add: core_def spy_def)

lemma core_cli_log_msg [simp]: "core (cli_log_msg m s) = core s"
  by (simp add: core_def cli_log_msg_def)

lemma core_next_buffer [simp]: "core (s\<lparr>next_buffer := n\<rparr>) = core s"
  by (simp add: core_def)

lemma core_zip_cache [simp]: "core (s\<lparr>zip_cache := c\<rparr>) = core s"
  by (simp add: core_def)

lemma bindS_cases:
  assumes "bindS m f s = (r, s')"
  obtains (throw) e where "m s = (Inl e, s')" "r = Inl e"
        | (ok) x s1 where "m s = (Inr x, s1)" "f x s1 = (r, s')"
  using assms by (auto simp: bindS_def split: prod.splits sum.splits)

lemma getPkg_frame: "getPkg env d n s = (r, s') \<Longrightarrow> core s' = core s"
  by (auto simp: getPkg_def bindS_def liftE_def split: prod.splits sum.splits if_splits)

lemma getPkg_fst: "fst (getPkg env d n s) = fst (getPkg env d n s')"
  by (auto simp: getPkg_def bindS_def liftE_def split: prod.splits sum.splits if_splits)

lemma checkSize_frame: "checkSize env pkg s = (r, s') \<Longrightarrow> core s' = core s"
  by (auto simp: checkSize_def bindS_def liftE_def split: prod.splits sum.splits if_splits)

lemma readFileSync_frame: "readFileSync env p s = (r, s') \<Longrightarrow> core s' = core s"
  by (auto simp: readFileSync_def split: jsval.splits sum.splits)

lemma loadZip_frame: "loadZip env b s = (r, s') \<Longrightarrow> core s' = core s"
  by (auto simp: loadZip_def Let_def split: option.splits)

lemma getFileContent_frame: "getFileContent env p f s = (r, s') \<Longrightarrow> core s' = core s"
  unfolding getFileContent_def
  by (erule bindS_cases) (auto dest!: readFileSync_frame loadZip_frame split: prod.splits)


lemma capacity_core: "core s0 = core s \<Longrightarrow> capacity s0 = capacity s"
  by (simp add: core_def capacity_def)

lemma submit_count_core: "core s0 = core s \<Longrightarrow> submit_count s0 = submit_count s"
  by (simp add: core_def submit_count_def)

lemma barrier_inv_core: "core s0 = core s \<Longrightarrow> barrier_inv N s0 = barrier_inv N s"
  by (simp add: barrier_inv_def capacity_def submit_count_def core_def)

subsection \<open>The three outcomes of the loop body\<close>

lemma liftE_cases:
  assumes "liftE m s = (r, s')"
  shows "r = m \<and> s' = s"
  using assms by (simp add: liftE_def)

lemma each_body_effect:
  assumes "each_body env name d s = (r, s')"
  shows "(\<exists>e. r = Inl e \<and> core s' = core s)
       \<or> (r = Inr () \<and> (\<exists>h. js_get d ''handler'' = Inr h \<and> truthy h)
            \<and> (\<exists>s0 pkg depFile. core s0 = core s \<and> fst (getPkg env d name s) = Inr pkg
                  \<and> s' = s0\<lparr>pending := pending s0 @
                       [AwaitStrategy name d pkg depFile (strategy_deploy env d pkg)]\<rparr>))
       \<or> (r = Inr () \<and> (\<exists>h. js_get d ''handler'' = Inr h \<and> \<not> truthy h)
            \<and> (\<exists>s0. core s0 = core s
                  \<and> s' = barrier_check env (push_populated (plain_record name d) s0)))"
  using assms unfolding each_body_def
proof (cases rule: bindS_cases)
  case (throw e)
  from throw(1) have "core s' = core s" by (rule getPkg_frame)
  with throw(2) show ?thesis by blast
next
  case (ok pkg s1)
  from ok(1) have c1: "core s1 = core s" by (rule getPkg_frame)
  from ok(1) have g: "fst (getPkg env d name s) = Inr pkg" by simp
  from ok(2) show ?thesis
  proof (cases rule: bindS_cases)
    case (throw e)
    from throw(1) have "core s' = core s1" by (rule checkSize_frame)
    with c1 have "core s' = core s" by simp
    with throw(2) show ?thesis by blast
  next
    case (ok u s2)
    from ok(1) have "core s2 = core s1" by (rule checkSize_frame)
    with c1 have c2: "core s2 = core s" by simp
    from ok(2) show ?thesis
    proof (cases rule: bindS_cases)
      case (throw e)
      from liftE_cases [OF throw(1)] c2 have "core s' = core s" by simp
      with throw(2) show ?thesis by blast
    next
      case (ok h s3)
      from liftE_cases [OF ok(1)] have h: "js_get d ''handler'' = Inr h" and s3: "s3 = s2"
        by simp_all
      show ?thesis
      proof (cases "truthy h")
        case False
        with ok(2) have "r = Inr ()" "s' = barrier_check env (push_populated (plain_record name d) s3)"
          by simp_all
        with h False c2 s3 show ?thesis by blast
      next
        case True
        with ok(2) have "bindS (liftE (js_get d ''runtime'')) (\<lambda>rt.
           bindS (liftE (getRuntimeDepfile env (js_or rt (provider_runtime env)))) (\<lambda>depFile s.
           (Inr (),
            (spy (CallStrategyDeploy name pkg) s)
              \<lparr>pending := pending s @
                 [AwaitStrategy name d pkg depFile (strategy_deploy env d pkg)]\<rparr>))) s3 = (r, s')"
          by simp
        then show ?thesis
        proof (cases rule: bindS_cases)
          case (throw e)
          from liftE_cases [OF throw(1)] c2 s3 have "core s' = core s" by simp
          with throw(2) show ?thesis by blast
        next
          case (ok rt s4)
          from liftE_cases [OF ok(1)] have s4: "s4 = s2" using s3 by simp
          from ok(2) show ?thesis
          proof (cases rule: bindS_cases)
            case (throw e)
            from liftE_cases [OF throw(1)] c2 s4 have "core s' = core s" by simp
            with throw(2) show ?thesis by blast
          next
            case (ok depFile s5)
            from liftE_cases [OF ok(1)] have s5: "s5 = s2" using s4 by simp
            have a: "core (spy (CallStrategyDeploy name pkg) s2) = core s" using c2 by simp
            have p: "pending (spy (CallStrategyDeploy name pkg) s2) = pending s2"
              by (simp add: spy_def)
            from ok(2) s5 have b: "s' = (spy (CallStrategyDeploy name pkg) s2)
                \<lparr>pending := pending (spy (CallStrategyDeploy name pkg) s2) @
                   [AwaitStrategy name d pkg depFile (strategy_deploy env d pkg)]\<rparr>"
              and r: "r = Inr ()"
              by (simp_all add: p)
            from a b r h g True show ?thesis by blast
          qed
        qed
      qed
    qed
  qed
qed


subsection \<open>One turn of the event loop\<close>

lemma length_keys_functions: "length (keys_l (JObj fs)) = length fs"
  by simp

lemma step_split:
  assumes "i < length (pending s)"
  shows "\<exists>ps1 t ps2. pending s = ps1 @ t # ps2
            \<and> step env i s = run_task env t (s\<lparr>pending := ps1 @ ps2\<rparr>)"
proof -
  have "pending s = take i (pending s) @ (pending s ! i) # drop (Suc i) (pending s)"
    using assms by (simp add: id_take_nth_drop)
  moreover have "step env i s =
      run_task env (pending s ! i) (s\<lparr>pending := take i (pending s) @ drop (Suc i) (pending s)\<rparr>)"
    using assms by (simp add: step_def)
  ultimately show ?thesis by blast
qed

lemma step_idle: "\<not> i < length (pending s) \<Longrightarrow> step env i s = s"
  by (simp add: step_def)

lemma barrier_inv_unhandled [simp]: "barrier_inv N (s\<lparr>unhandled := u\<rparr>) = barrier_inv N s"
  by (simp add: barrier_inv_def capacity_def submit_count_def)

lemma capacity_unhandled [simp]: "capacity (s\<lparr>unhandled := u\<rparr>) = capacity s"
  by (simp add: capacity_def)

lemma abort_guard_unhandled [simp]: "abort_guard N (s\<lparr>unhandled := u\<rparr>) = abort_guard N s"
  by (simp add: abort_guard_def)

lemma abort_guard_core: "core s0 = core s \<Longrightarrow> abort_guard N s0 = abort_guard N s"
  by (simp add: abort_guard_def capacity_def core_def)

text \<open>Pushing a record while there is room.\<close>

lemma push_barrier_inv:
  assumes inv: "barrier_inv N s" and room: "capacity s < N" and N: "N = length (service_functions env)"
  shows "barrier_inv N (barrier_check env (push_populated r s))"
proof -
  from inv room have nres: "outer s \<noteq> Resolved"
    by (auto simp: barrier_inv_def capacity_def)
  with inv have none: "submit_count s = 0"
    by (simp add: barrier_inv_def)
  show ?thesis
  proof (cases "Suc (length (populatedFunctions s)) = N \<and> outer s = Pending")
    case True
    with room have "length (filter is_branch (pending s)) < 1"
      unfolding capacity_def by linarith
    then have "filter is_branch (pending s) = []"
      by simp
    with True none N show ?thesis
      by (simp add: barrier_inv_def barrier_check_def push_populated_def resolve_def capacity_def
          submit_count_def)
  next
    case False
    have "barrier_check env (push_populated r s) = push_populated r s"
      using False N by (auto simp: barrier_check_def push_populated_def resolve_def)
    moreover have "barrier_inv N (push_populated r s)"
      using inv room nres none False
      by (auto simp: barrier_inv_def push_populated_def capacity_def submit_count_def)
    ultimately show ?thesis by simp
  qed
qed

lemma push_fields:
  "capacity (barrier_check env (push_populated r s)) = Suc (capacity s)"
  "unhandled (barrier_check env (push_populated r s)) = unhandled s"
  "populatedFunctions (barrier_check env (push_populated r s)) = populatedFunctions s @ [r]"
  "submitted (barrier_check env (push_populated r s)) = submitted s"
  "filter is_branch (pending (barrier_check env (push_populated r s))) = filter is_branch (pending s)"
  "set (pending s) \<subseteq> set (pending (barrier_check env (push_populated r s)))"
  "is_rejected (outer s) \<Longrightarrow> outer (barrier_check env (push_populated r s)) = outer s"
  by (auto simp: barrier_check_def push_populated_def resolve_def capacity_def)

lemma launch_barrier_inv:
  assumes "barrier_inv N s" "capacity s < N" "is_branch t"
  shows "barrier_inv N (s\<lparr>pending := pending s @ [t]\<rparr>)"
  using assms by (auto simp: barrier_inv_def capacity_def submit_count_def)

lemma launch_capacity:
  "is_branch t \<Longrightarrow> capacity (s\<lparr>pending := pending s @ [t]\<rparr>) = Suc (capacity s)"
  by (simp add: capacity_def)

lemma reject_barrier_inv: "barrier_inv N s \<Longrightarrow> barrier_inv N (reject e s)"
  by (auto simp: barrier_inv_def reject_def capacity_def submit_count_def)

lemma reject_fields:
  "capacity (reject e s) = capacity s"
  "pending (reject e s) = pending s"
  "unhandled (reject e s) = unhandled s"
  "submitted (reject e s) = submitted s"
  "populatedFunctions (reject e s) = populatedFunctions s"
  "outer s = Pending \<Longrightarrow> outer (reject e s) = Rejected e"
  "outer s \<noteq> Pending \<Longrightarrow> outer (reject e s) = outer s"
  by (auto simp: reject_def capacity_def)

lemma reject_rejected: "outer s \<noteq> Resolved \<Longrightarrow> is_rejected (outer (reject e s))"
  by (cases "outer s") (simp_all add: reject_def)

lemma remove_branch_barrier_inv:
  assumes "barrier_inv N s" "pending s = ps1 @ t # ps2" "is_branch t"
  shows "barrier_inv N (s\<lparr>pending := ps1 @ ps2\<rparr>)"
    and "Suc (capacity (s\<lparr>pending := ps1 @ ps2\<rparr>)) = capacity s"
  using assms by (auto simp: barrier_inv_def capacity_def submit_count_def)


lemma run_task_strategy_effect:
  "\<exists>s2. core s2 = core (case r of Inl e \<Rightarrow> reject e s | Inr v \<Rightarrow> s) \<and>
     ((\<exists>e. run_task env (AwaitStrategy n d pkg f r) s = s2\<lparr>unhandled := unhandled s2 @ [e]\<rparr>) \<or>
      (\<exists>opts zr. run_task env (AwaitStrategy n d pkg f r) s =
                   s2\<lparr>pending := pending s2 @ [AwaitZip n d opts f zr]\<rparr>))"
proof -
  obtain res s2 where g: "getFileContent env pkg f (case r of Inl e \<Rightarrow> reject e s | Inr v \<Rightarrow> s) = (res, s2)"
    by (cases "getFileContent env pkg f (case r of Inl e \<Rightarrow> reject e s | Inr v \<Rightarrow> s)")
  then have c: "core s2 = core (case r of Inl e \<Rightarrow> reject e s | Inr v \<Rightarrow> s)"
    by (rule getFileContent_frame)
  show ?thesis
  proof (cases res)
    case (Inl e)
    with g have "run_task env (AwaitStrategy n d pkg f r) s = s2\<lparr>unhandled := unhandled s2 @ [e]\<rparr>"
      by (simp add: Let_def)
    with c show ?thesis by blast
  next
    case (Inr zr)
    with g have "run_task env (AwaitStrategy n d pkg f r) s =
        s2\<lparr>pending := pending s2 @
          [AwaitZip n d (case r of Inl e \<Rightarrow> JUndefined | Inr v \<Rightarrow> v) f zr]\<rparr>"
      by (simp add: Let_def)
    with c show ?thesis by blast
  qed
qed

lemma run_task_zip_effect:
  "(\<exists>e. run_task env (AwaitZip n d opts f zr) s = s\<lparr>unhandled := unhandled s @ [e]\<rparr>)
   \<or> (\<exists>r. run_task env (AwaitZip n d opts f zr) s = barrier_check env (push_populated r s))"
  by (cases "populated_record env n d opts (requirements_of zr f)") auto

lemma settle_barrier_inv:
  "barrier_inv N s \<Longrightarrow> barrier_inv N (case r of Inl e \<Rightarrow> reject e s | Inr v \<Rightarrow> s)"
  by (cases r) (simp_all add: reject_barrier_inv)

lemma settle_capacity: "capacity (case r of Inl e \<Rightarrow> reject e s | Inr v \<Rightarrow> s) = capacity s"
  by (cases r) (simp_all add: reject_fields)

lemma settle_unhandled: "unhandled (case r of Inl e \<Rightarrow> reject e s | Inr v \<Rightarrow> s) = unhandled s"
  by (cases r) (simp_all add: reject_fields)

lemma settle_pending: "pending (case r of Inl e \<Rightarrow> reject e s | Inr v \<Rightarrow> s) = pending s"
  by (cases r) (simp_all add: reject_fields)

lemma core_fields:
  assumes "core s0 = core s"
  shows "populatedFunctions s0 = populatedFunctions s" "outer s0 = outer s" "pending s0 = pending s"
    "unhandled s0 = unhandled s" "submitted s0 = submitted s"
  using assms by (simp_all add: core_def)

lemma run_task_barrier_inv:
  assumes inv: "barrier_inv N s" and N: "N = length (service_functions env)"
    and p: "pending s = ps1 @ t # ps2"
  shows "barrier_inv N (run_task env t (s\<lparr>pending := ps1 @ ps2\<rparr>))
       \<and> capacity (run_task env t (s\<lparr>pending := ps1 @ ps2\<rparr>)) \<le> capacity s
       \<and> (unhandled (run_task env t (s\<lparr>pending := ps1 @ ps2\<rparr>)) = [] \<longrightarrow>
            unhandled s = [] \<and> capacity (run_task env t (s\<lparr>pending := ps1 @ ps2\<rparr>)) = capacity s)"
proof (cases t)
  case AwaitSubmit
  with inv p have res: "outer s = Resolved" and one: "submit_count s = 1"
    by (auto simp: barrier_inv_def submit_count_def split: if_splits)
  from one p AwaitSubmit have e: "submitted s = []" "filter (\<lambda>t. \<not> is_branch t) (ps1 @ ps2) = []"
    by (auto simp: submit_count_def)
  from inv res have "length (filter is_branch (pending s)) < 1"
    unfolding barrier_inv_def capacity_def by linarith
  then have "filter is_branch (pending s) = []"
    by simp
  with p have b: "filter is_branch ps1 = []" "filter is_branch ps2 = []"
    by (simp_all split: if_splits)
  from inv res e b p AwaitSubmit show ?thesis
    by (simp add: barrier_inv_def capacity_def submit_count_def spy_def)
next
  case (AwaitZip n d opts f zr)
  define s0 where "s0 = s\<lparr>pending := ps1 @ ps2\<rparr>"
  from remove_branch_barrier_inv [OF inv p] AwaitZip
  have i: "barrier_inv N s0" and c: "Suc (capacity s0) = capacity s"
    by (simp_all add: s0_def)
  have u: "unhandled s0 = unhandled s" by (simp add: s0_def)
  from inv c have room: "capacity s0 < N"
    unfolding barrier_inv_def by linarith
  from run_task_zip_effect [where env = env and n = n and d = d and opts = opts and f = f and zr = zr and s = s0]
  have "barrier_inv N (run_task env t s0) \<and> capacity (run_task env t s0) \<le> capacity s
       \<and> (unhandled (run_task env t s0) = [] \<longrightarrow>
            unhandled s = [] \<and> capacity (run_task env t s0) = capacity s)"
  proof (elim disjE exE)
    fix e assume a: "run_task env (AwaitZip n d opts f zr) s0 = s0\<lparr>unhandled := unhandled s0 @ [e]\<rparr>"
    have "capacity (s0\<lparr>unhandled := unhandled s0 @ [e]\<rparr>) \<le> capacity s"
      using c unfolding capacity_unhandled by linarith
    with i show ?thesis
      unfolding AwaitZip a by simp
  next
    fix r assume a: "run_task env (AwaitZip n d opts f zr) s0 = barrier_check env (push_populated r s0)"
    have "capacity (barrier_check env (push_populated r s0)) = capacity s"
      using c by (simp only: push_fields)
    with push_barrier_inv [OF i room N, of r] u show ?thesis
      unfolding AwaitZip a by (simp add: push_fields)
  qed
  then show ?thesis unfolding s0_def .
next
  case (AwaitStrategy n d pkg f r)
  define s0 where "s0 = s\<lparr>pending := ps1 @ ps2\<rparr>"
  define s1 where "s1 = (case r of Inl e \<Rightarrow> reject e s0 | Inr v \<Rightarrow> s0)"
  from remove_branch_barrier_inv [OF inv p] AwaitStrategy
  have i: "barrier_inv N s0" and c: "Suc (capacity s0) = capacity s"
    by (simp_all add: s0_def)
  from i have i1: "barrier_inv N s1" unfolding s1_def by (rule settle_barrier_inv)
  have c1: "Suc (capacity s1) = capacity s" using c by (simp only: s1_def settle_capacity)
  have u1: "unhandled s1 = unhandled s" by (simp add: s1_def settle_unhandled s0_def)
  from run_task_strategy_effect [where r = r and s = s0 and env = env and n = n and d = d and pkg = pkg and f = f]
  obtain s2 where co: "core s2 = core s1"
    and eff: "(\<exists>e. run_task env (AwaitStrategy n d pkg f r) s0 = s2\<lparr>unhandled := unhandled s2 @ [e]\<rparr>) \<or>
      (\<exists>opts zr. run_task env (AwaitStrategy n d pkg f r) s0 =
                   s2\<lparr>pending := pending s2 @ [AwaitZip n d opts f zr]\<rparr>)"
    unfolding s1_def by blast
  from i1 have i2: "barrier_inv N s2" by (simp only: barrier_inv_core [OF co])
  from c1 have c2: "Suc (capacity s2) = capacity s" by (simp only: capacity_core [OF co])
  from u1 have u2: "unhandled s2 = unhandled s" by (simp only: core_fields(4) [OF co])
  from inv c2 have room: "capacity s2 < N" unfolding barrier_inv_def by linarith
  from eff
  have "barrier_inv N (run_task env t s0) \<and> capacity (run_task env t s0) \<le> capacity s
       \<and> (unhandled (run_task env t s0) = [] \<longrightarrow>
            unhandled s = [] \<and> capacity (run_task env t s0) = capacity s)"
  proof (elim disjE exE)
    fix e assume a: "run_task env (AwaitStrategy n d pkg f r) s0 = s2\<lparr>unhandled := unhandled s2 @ [e]\<rparr>"
    have "capacity (s2\<lparr>unhandled := unhandled s2 @ [e]\<rparr>) \<le> capacity s"
      using c2 unfolding capacity_unhandled by linarith
    with i2 show ?thesis
      unfolding AwaitStrategy a by simp
  next
    fix opts zr
    assume a: "run_task env (AwaitStrategy n d pkg f r) s0 = s2\<lparr>pending := pending s2 @ [AwaitZip n d opts f zr]\<rparr>"
    have "capacity (s2\<lparr>pending := pending s2 @ [AwaitZip n d opts f zr]\<rparr>) = capacity s"
      using c2 by (simp only: launch_capacity is_branch.simps)
    with launch_barrier_inv [OF i2 room, of "AwaitZip n d opts f zr"] u2 show ?thesis
      unfolding AwaitStrategy a by simp
  qed
  then show ?thesis unfolding s0_def .
qed


lemma settle_outer_rejected:
  "is_rejected (outer s) \<Longrightarrow> outer (case r of Inl e \<Rightarrow> reject e s | Inr v \<Rightarrow> s) = outer s"
  by (cases r) (auto simp: reject_def)

lemma run_task_strategy_fields:
  "outer (run_task env (AwaitStrategy n d pkg f r) s) = outer (case r of Inl e \<Rightarrow> reject e s | Inr v \<Rightarrow> s)
   \<and> set (pending s) \<subseteq> set (pending (run_task env (AwaitStrategy n d pkg f r) s))
   \<and> populatedFunctions (run_task env (AwaitStrategy n d pkg f r) s) = populatedFunctions s
   \<and> submitted (run_task env (AwaitStrategy n d pkg f r) s) = submitted s"
proof -
  from run_task_strategy_effect [where r = r and s = s and env = env and n = n and d = d and pkg = pkg and f = f]
  obtain s2 where co: "core s2 = core (case r of Inl e \<Rightarrow> reject e s | Inr v \<Rightarrow> s)"
    and eff: "(\<exists>e. run_task env (AwaitStrategy n d pkg f r) s = s2\<lparr>unhandled := unhandled s2 @ [e]\<rparr>) \<or>
      (\<exists>opts zr. run_task env (AwaitStrategy n d pkg f r) s =
                   s2\<lparr>pending := pending s2 @ [AwaitZip n d opts f zr]\<rparr>)"
    by blast
  have a: "outer s2 = outer (case r of Inl e \<Rightarrow> reject e s | Inr v \<Rightarrow> s)"
    "pending s2 = pending s" "populatedFunctions s2 = populatedFunctions s" "submitted s2 = submitted s"
    using core_fields [OF co] by (cases r; simp add: reject_fields)+
  from eff show ?thesis
  proof (elim disjE exE)
    fix e assume "run_task env (AwaitStrategy n d pkg f r) s = s2\<lparr>unhandled := unhandled s2 @ [e]\<rparr>"
    then show ?thesis using a by simp
  next
    fix opts zr
    assume "run_task env (AwaitStrategy n d pkg f r) s = s2\<lparr>pending := pending s2 @ [AwaitZip n d opts f zr]\<rparr>"
    then show ?thesis using a by auto
  qed
qed

lemma run_task_zip_fields:
  "set (pending s) \<subseteq> set (pending (run_task env (AwaitZip n d opts f zr) s))
   \<and> (is_rejected (outer s) \<longrightarrow> outer (run_task env (AwaitZip n d opts f zr) s) = outer s)
   \<and> submitted (run_task env (AwaitZip n d opts f zr) s) = submitted s"
  using run_task_zip_effect [where env = env and n = n and d = d and opts = opts and f = f and zr = zr and s = s]
  by (elim disjE exE) (simp_all add: push_fields)

lemma step_rejected:
  assumes "is_rejected (outer s)"
  shows "outer (step env i s) = outer s"
proof (cases "i < length (pending s)")
  case False
  then show ?thesis by (simp add: step_idle)
next
  case True
  from step_split [OF True, of env] obtain ps1 t ps2 where
    st: "step env i s = run_task env t (s\<lparr>pending := ps1 @ ps2\<rparr>)"
    by blast
  have r: "is_rejected (outer (s\<lparr>pending := ps1 @ ps2\<rparr>))" using assms by simp
  show ?thesis
  proof (cases t)
    case AwaitSubmit
    then show ?thesis using st by (simp add: spy_def)
  next
    case (AwaitZip n d opts f zr)
    then show ?thesis using st run_task_zip_fields [of "s\<lparr>pending := ps1 @ ps2\<rparr>" env n d opts f zr] r
      by simp
  next
    case (AwaitStrategy n d pkg f r')
    then show ?thesis
      using st run_task_strategy_fields [of env n d pkg f r' "s\<lparr>pending := ps1 @ ps2\<rparr>"]
        settle_outer_rejected [OF r, of r']
      by simp
  qed
qed

lemma run_rejected: "is_rejected (outer s) \<Longrightarrow> outer (run env sched s) = outer s"
proof (induction sched arbitrary: s)
  case Nil
  then show ?case by (simp add: run_def)
next
  case (Cons i sched)
  from Cons.prems have a: "outer (step env i s) = outer s" by (rule step_rejected)
  with Cons.prems have "is_rejected (outer (step env i s))" by simp
  from Cons.IH [OF this] a show ?case by (simp add: run_def)
qed

lemma guard_not_resolved:
  assumes inv: "barrier_inv N s" and g: "abort_guard N s"
  shows "outer s \<noteq> Resolved \<and> submitted s = [] \<and> (\<forall>t\<in>set (pending s). is_branch t)"
proof -
  have nr: "outer s \<noteq> Resolved"
  proof
    assume res: "outer s = Resolved"
    with inv have "length (filter is_branch (pending s)) < 1" and full: "\<not> capacity s < N"
      unfolding barrier_inv_def capacity_def by linarith+
    then have "filter is_branch (pending s) = []" by simp
    then have "\<forall>t\<in>set (pending s). \<not> is_branch t"
      by (simp add: filter_empty_conv)
    moreover have "\<And>t. failing t \<Longrightarrow> is_branch t"
      by (erule failing.elims) simp_all
    ultimately have "\<not> (\<exists>t\<in>set (pending s). failing t)" by blast
    with g res full show False by (simp add: abort_guard_def)
  qed
  with inv have "submit_count s = 0" by (simp add: barrier_inv_def)
  then have "submitted s = []" "filter (\<lambda>t. \<not> is_branch t) (pending s) = []"
    by (simp_all add: submit_count_def)
  with nr show ?thesis by (simp add: filter_empty_conv)
qed

lemma run_task_abort_guard:
  assumes inv: "barrier_inv N s" and N: "N = length (service_functions env)"
    and p: "pending s = ps1 @ t # ps2" and g: "abort_guard N s"
  shows "abort_guard N (run_task env t (s\<lparr>pending := ps1 @ ps2\<rparr>))"
proof -
  define s0 where "s0 = s\<lparr>pending := ps1 @ ps2\<rparr>"
  from guard_not_resolved [OF inv g] p have nr: "outer s \<noteq> Resolved" and br: "is_branch t"
    by simp_all
  from run_task_barrier_inv [OF inv N p] have cap: "capacity (run_task env t s0) \<le> capacity s"
    by (simp add: s0_def)
  have o0: "outer s0 = outer s" and p0: "pending s0 = ps1 @ ps2" by (simp_all add: s0_def)
  have "abort_guard N (run_task env t s0)"
  proof (cases "failing t")
    case True
    then obtain n d pkg f e where t: "t = AwaitStrategy n d pkg f (Inl e)"
      by (cases t) (auto simp: isl_def)
    from nr o0 have "is_rejected (outer (reject e s0))" by (simp add: reject_rejected)
    with run_task_strategy_fields [of env n d pkg f "Inl e" s0] show ?thesis
      by (simp add: t abort_guard_def)
  next
    case False
    from g consider (rej) "is_rejected (outer s)" | (room) "capacity s < N"
      | (fail) t0 where "t0 \<in> set (pending s)" "failing t0"
      by (auto simp: abort_guard_def)
    then show ?thesis
    proof cases
      case rej
      with o0 have "is_rejected (outer s0)" by simp
      then have "outer (step env (length ps1) s) = outer s"
        using rej by (simp add: step_rejected)
      moreover have "step env (length ps1) s = run_task env t s0"
        using p by (simp add: step_def s0_def)
      ultimately show ?thesis using rej by (simp add: abort_guard_def)
    next
      case room
      with cap show ?thesis by (simp add: abort_guard_def)
    next
      case fail
      with False p have "t0 \<in> set (pending s0)" by (auto simp: p0)
      moreover have "set (pending s0) \<subseteq> set (pending (run_task env t s0))"
        using br run_task_strategy_fields run_task_zip_fields by (cases t) simp_all
      ultimately show ?thesis using fail(2) by (auto simp: abort_guard_def)
    qed
  qed
  then show ?thesis unfolding s0_def .
qed


subsection \<open>The invariants hold along every schedule\<close>

lemma step_inv:
  assumes inv: "barrier_inv N s" and N: "N = length (service_functions env)"
  shows "barrier_inv N (step env i s)
       \<and> capacity (step env i s) \<le> capacity s
       \<and> (unhandled (step env i s) = [] \<longrightarrow> unhandled s = [] \<and> capacity (step env i s) = capacity s)
       \<and> (abort_guard N s \<longrightarrow> abort_guard N (step env i s))"
proof (cases "i < length (pending s)")
  case False
  with inv show ?thesis by (simp add: step_idle)
next
  case True
  from step_split [OF True, of env] obtain ps1 t ps2 where
    p: "pending s = ps1 @ t # ps2" and st: "step env i s = run_task env t (s\<lparr>pending := ps1 @ ps2\<rparr>)"
    by blast
  from run_task_barrier_inv [OF inv N p] run_task_abort_guard [OF inv N p] show ?thesis
    unfolding st by blast
qed

lemma run_inv:
  assumes "barrier_inv N s" and N: "N = length (service_functions env)"
  shows "barrier_inv N (run env sched s)
       \<and> capacity (run env sched s) \<le> capacity s
       \<and> (unhandled (run env sched s) = [] \<longrightarrow> unhandled s = [] \<and> capacity (run env sched s) = capacity s)
       \<and> (abort_guard N s \<longrightarrow> abort_guard N (run env sched s))"
  using assms(1)
proof (induction sched arbitrary: s)
  case Nil
  then show ?case by (simp add: run_def)
next
  case (Cons i sched)
  have r: "run env (i # sched) s = run env sched (step env i s)"
    by (simp add: run_def)
  from step_inv [OF Cons.prems N, of i] Cons.IH [of "step env i s"] show ?case
    unfolding r by force
qed

lemma each_functions_inv:
  assumes "barrier_inv N s" and N: "N = length (service_functions env)"
    and "capacity s + length fs \<le> N"
  shows "barrier_inv N (each_functions env fs s)
       \<and> capacity (each_functions env fs s) \<le> capacity s + length fs
       \<and> (unhandled (each_functions env fs s) = [] \<longrightarrow>
             unhandled s = [] \<and> capacity (each_functions env fs s) = capacity s + length fs)
       \<and> set (pending s) \<subseteq> set (pending (each_functions env fs s))
       \<and> ((\<exists>(n, d)\<in>set fs. strategy_fails env n d) \<longrightarrow>
             capacity (each_functions env fs s) < capacity s + length fs
             \<or> (\<exists>t\<in>set (pending (each_functions env fs s)). failing t))"
  using assms(1,3)
proof (induction fs arbitrary: s)
  case Nil
  then show ?case by simp
next
  case (Cons nd fs)
  obtain name d where nd: "nd = (name, d)" by (cases nd)
  obtain r s1 where b: "each_body env name d s = (r, s1)" by (cases "each_body env name d s")
  from Cons.prems have room: "capacity s < N" by simp
  from each_body_effect [OF b]
  consider (throw) e where "r = Inl e" "core s1 = core s"
    | (launch) h s0 pkg depFile where "r = Inr ()" "js_get d ''handler'' = Inr h" "truthy h"
        "core s0 = core s" "fst (getPkg env d name s) = Inr pkg"
        "s1 = s0\<lparr>pending := pending s0 @ [AwaitStrategy name d pkg depFile (strategy_deploy env d pkg)]\<rparr>"
    | (push) h s0 where "r = Inr ()" "js_get d ''handler'' = Inr h" "\<not> truthy h"
        "core s0 = core s" "s1 = barrier_check env (push_populated (plain_record name d) s0)"
    by blast
  then show ?case
  proof cases
    case throw
    have res: "each_functions env (nd # fs) s = s1\<lparr>unhandled := unhandled s1 @ [e]\<rparr>"
      using b throw(1) by (simp add: nd)
    from Cons.prems(1) have "barrier_inv N s1" by (simp only: barrier_inv_core [OF throw(2)])
    moreover have "capacity s1 = capacity s" by (rule capacity_core [OF throw(2)])
    moreover have "pending s1 = pending s" by (rule core_fields(3) [OF throw(2)])
    ultimately show ?thesis unfolding res by simp
  next
    case launch
    let ?t = "AwaitStrategy name d pkg depFile (strategy_deploy env d pkg)"
    have res: "each_functions env (nd # fs) s = each_functions env fs s1"
      using b launch(1) by (simp add: nd)
    from Cons.prems(1) have i0: "barrier_inv N s0" by (simp only: barrier_inv_core [OF launch(4)])
    have c0: "capacity s0 = capacity s" by (rule capacity_core [OF launch(4)])
    from room c0 have room0: "capacity s0 < N" by simp
    have i1: "barrier_inv N s1"
      unfolding launch(6) by (rule launch_barrier_inv [OF i0 room0]) simp
    have c1: "capacity s1 = Suc (capacity s)"
      unfolding launch(6) using c0 by (simp add: launch_capacity)
    have u1: "unhandled s1 = unhandled s"
      unfolding launch(6) using core_fields(4) [OF launch(4)] by simp
    have p1: "set (pending s) \<subseteq> set (pending s1)" "?t \<in> set (pending s1)"
      unfolding launch(6) using core_fields(3) [OF launch(4)] by auto
    from Cons.prems c1 have "capacity s1 + length fs \<le> N" by simp
    from Cons.IH [OF i1 this] have ih:
      "barrier_inv N (each_functions env fs s1)"
      "capacity (each_functions env fs s1) \<le> capacity s1 + length fs"
      "unhandled (each_functions env fs s1) = [] \<longrightarrow>
         unhandled s1 = [] \<and> capacity (each_functions env fs s1) = capacity s1 + length fs"
      "set (pending s1) \<subseteq> set (pending (each_functions env fs s1))"
      "(\<exists>(n, d)\<in>set fs. strategy_fails env n d) \<longrightarrow>
         capacity (each_functions env fs s1) < capacity s1 + length fs
         \<or> (\<exists>t\<in>set (pending (each_functions env fs s1)). failing t)"
      by blast+
    have last: "(\<exists>(n, d)\<in>set (nd # fs). strategy_fails env n d) \<longrightarrow>
         capacity (each_functions env fs s1) < capacity s + length (nd # fs)
         \<or> (\<exists>t\<in>set (pending (each_functions env fs s1)). failing t)"
    proof
      assume "\<exists>(n, d)\<in>set (nd # fs). strategy_fails env n d"
      then consider "strategy_fails env name d" | "\<exists>(n, d)\<in>set fs. strategy_fails env n d"
        by (auto simp: nd)
      then show "capacity (each_functions env fs s1) < capacity s + length (nd # fs)
         \<or> (\<exists>t\<in>set (pending (each_functions env fs s1)). failing t)"
      proof cases
        case 1
        moreover have "fst (getPkg env d name init_state) = Inr pkg"
          using launch(5) getPkg_fst [of env d name init_state s] by simp
        ultimately have "failing ?t" by (simp add: strategy_fails_def)
        with p1(2) ih(4) show ?thesis by blast
      next
        case 2
        with ih(5) c1 show ?thesis by auto
      qed
    qed
    from ih(1-4) c1 u1 p1(1) last show ?thesis unfolding res by auto
  next
    case push
    have res: "each_functions env (nd # fs) s = each_functions env fs s1"
      using b push(1) by (simp add: nd)
    from Cons.prems(1) have i0: "barrier_inv N s0" by (simp only: barrier_inv_core [OF push(4)])
    have c0: "capacity s0 = capacity s" by (rule capacity_core [OF push(4)])
    from room c0 have room0: "capacity s0 < N" by simp
    have i1: "barrier_inv N s1"
      unfolding push(5) by (rule push_barrier_inv [OF i0 room0 N])
    have c1: "capacity s1 = Suc (capacity s)"
      unfolding push(5) using c0 by (simp add: push_fields)
    have u1: "unhandled s1 = unhandled s"
      unfolding push(5) using core_fields(4) [OF push(4)] by (simp add: push_fields)
    have p1: "set (pending s) \<subseteq> set (pending s1)"
      unfolding push(5) using core_fields(3) [OF push(4)] push_fields(6) [of s0 env] by simp
    from Cons.prems c1 have "capacity s1 + length fs \<le> N" by simp
    from Cons.IH [OF i1 this] have ih:
      "barrier_inv N (each_functions env fs s1)"
      "capacity (each_functions env fs s1) \<le> capacity s1 + length fs"
      "unhandled (each_functions env fs s1) = [] \<longrightarrow>
         unhandled s1 = [] \<and> capacity (each_functions env fs s1) = capacity s1 + length fs"
      "set (pending s1) \<subseteq> set (pending (each_functions env fs s1))"
      "(\<exists>(n, d)\<in>set fs. strategy_fails env n d) \<longrightarrow>
         capacity (each_functions env fs s1) < capacity s1 + length fs
         \<or> (\<exists>t\<in>set (pending (each_functions env fs s1)). failing t)"
      by blast+
    have nf: "\<not> strategy_fails env name d"
      using push(2,3) by (simp add: strategy_fails_def)
    have last: "(\<exists>(n, d)\<in>set (nd # fs). strategy_fails env n d) \<longrightarrow>
         capacity (each_functions env fs s1) < capacity s + length (nd # fs)
         \<or> (\<exists>t\<in>set (pending (each_functions env fs s1)). failing t)"
      using ih(5) c1 nf by (auto simp: nd)
    from ih(1-4) c1 u1 p1 last show ?thesis unfolding res by auto
  qed
qed

subsection \<open>The whole deployment\<close>

lemma barrier_inv_init: "barrier_inv N init_state"
  by (auto simp: barrier_inv_def init_state_def capacity_def submit_count_def)

lemma capacity_init: "capacity init_state = 0"
  by (simp add: init_state_def capacity_def)

lemma deployFunction_inv:
  assumes N: "N = length (service_functions env)"
  shows "barrier_inv N (deployFunction env sched)
       \<and> (unhandled (deployFunction env sched) = [] \<longrightarrow> capacity (deployFunction env sched) = N)
       \<and> ((\<exists>(n, d)\<in>set (service_functions env). strategy_fails env n d) \<longrightarrow>
             abort_guard N (deployFunction env sched))"
proof (cases "config_init env")
  case (Some e)
  have "(\<exists>(n, d)\<in>set (service_functions env). strategy_fails env n d) \<longrightarrow> 0 < N"
    using N by auto
  then show ?thesis
    using barrier_inv_init [of N] capacity_init
    by (simp add: deployFunction_def Some abort_guard_def)
next
  case None
  define s1 where "s1 = each_functions env (service_functions env) init_state"
  have d: "deployFunction env sched = run env sched s1"
    by (simp add: deployFunction_def None s1_def)
  have "capacity init_state + length (service_functions env) \<le> N"
    using N by (simp add: capacity_init)
  from each_functions_inv [OF barrier_inv_init N this]
  have l: "barrier_inv N s1"
    "unhandled s1 = [] \<longrightarrow> capacity s1 = N"
    "(\<exists>(n, d)\<in>set (service_functions env). strategy_fails env n d) \<longrightarrow> abort_guard N s1"
    unfolding s1_def [symmetric] using N by (auto simp: capacity_init abort_guard_def)
  from run_inv [OF l(1) N, of sched] l(2,3) show ?thesis
    unfolding d by auto
qed

lemma deployFunction_append:
  "config_init env = None \<Longrightarrow>
     deployFunction env (sched @ rest) = run env rest (deployFunction env sched)"
  by (simp add: deployFunction_def run_def)

text \<open>
  C2 (as amended). Whatever the order in which the branches complete, \<^verbatim>\<open>deploy\<close> is
  called at most once, and only with the full collection of exactly \<open>N\<close> records,
  \<open>N\<close> being the number of declared functions. When at least one function is
  declared and the run has come to rest with no exception raised and the outer promise
  not rejected, it has been called exactly once.
\<close>

theorem submission_barrier:
  "length (submitted (deployFunction env sched)) \<le> 1
   \<and> (\<forall>p\<in>set (submitted (deployFunction env sched)).
         p = populatedFunctions (deployFunction env sched)
         \<and> length p = length (service_functions env))
   \<and> (pending (deployFunction env sched) = [] \<and> unhandled (deployFunction env sched) = []
        \<and> \<not> is_rejected (outer (deployFunction env sched)) \<and> service_functions env \<noteq> []
        \<longrightarrow> length (submitted (deployFunction env sched)) = 1)"
proof -
  define F where "F = deployFunction env sched"
  define N where "N = length (service_functions env)"
  from deployFunction_inv [OF N_def, of sched]
  have inv: "barrier_inv N F" and live: "unhandled F = [] \<longrightarrow> capacity F = N"
    by (simp_all add: F_def)
  from inv have sc: "submit_count F = (if outer F = Resolved then 1 else 0)"
    and full: "outer F = Resolved \<longrightarrow> length (populatedFunctions F) = N"
    and same: "\<forall>p\<in>set (submitted F). p = populatedFunctions F"
    and settled: "0 < N \<and> length (populatedFunctions F) = N \<longrightarrow> outer F \<noteq> Pending"
    by (simp_all add: barrier_inv_def)
  from sc have a: "length (submitted F) \<le> 1"
    by (simp add: submit_count_def split: if_splits)
  have b: "\<forall>p\<in>set (submitted F). p = populatedFunctions F \<and> length p = N"
  proof
    fix p assume p: "p \<in> set (submitted F)"
    then have "submitted F \<noteq> []" by auto
    with sc have "outer F = Resolved"
      by (auto simp: submit_count_def split: if_splits)
    with full same p show "p = populatedFunctions F \<and> length p = N" by simp
  qed
  have c: "pending F = [] \<and> unhandled F = [] \<and> \<not> is_rejected (outer F) \<and> service_functions env \<noteq> []
        \<longrightarrow> length (submitted F) = 1"
  proof
    assume h: "pending F = [] \<and> unhandled F = [] \<and> \<not> is_rejected (outer F) \<and> service_functions env \<noteq> []"
    with live have "length (populatedFunctions F) = N"
      by (simp add: capacity_def)
    moreover from h have "0 < N" by (simp add: N_def)
    ultimately have "outer F \<noteq> Pending" using settled by simp
    with h have "outer F = Resolved" by (cases "outer F") simp_all
    with sc h show "length (submitted F) = 1" by (simp add: submit_count_def)
  qed
  from a b c show ?thesis unfolding F_def N_def by blast
qed

text \<open>
  C4. If the strategy's deploy rejects for one declared function, \<^verbatim>\<open>deploy\<close> is never
  called and the outer promise is never fulfilled, under every schedule. The first
  rejection to arrive (the outer promise is still pending when it does) becomes the
  rejection of the outer promise and stays it, whatever arrives later.
\<close>

theorem strategy_failure_aborts:
  assumes "(name, description) \<in> set (service_functions env)"
    and "strategy_fails env name description"
  shows "submitted (deployFunction env sched) = []
       \<and> outer (deployFunction env sched) \<noteq> Resolved
       \<and> (outer (deployFunction env sched) = Pending \<and> i < length (pending (deployFunction env sched))
            \<and> pending (deployFunction env sched) ! i = AwaitStrategy n d p f (Inl e)
          \<longrightarrow> outer (deployFunction env (sched @ i # later)) = Rejected e)"
proof -
  define F where "F = deployFunction env sched"
  define N where "N = length (service_functions env)"
  from assms have "\<exists>(n, d)\<in>set (service_functions env). strategy_fails env n d" by blast
  with deployFunction_inv [OF N_def, of sched]
  have inv: "barrier_inv N F" and g: "abort_guard N F"
    by (simp_all add: F_def)
  from guard_not_resolved [OF inv g] have a: "submitted F = []" "outer F \<noteq> Resolved"
    by simp_all
  have b: "outer F = Pending \<and> i < length (pending F) \<and> pending F ! i = AwaitStrategy n d p f (Inl e)
          \<longrightarrow> outer (deployFunction env (sched @ i # later)) = Rejected e"
  proof
    assume h: "outer F = Pending \<and> i < length (pending F) \<and> pending F ! i = AwaitStrategy n d p f (Inl e)"
    have ci: "config_init env = None"
    proof (cases "config_init env")
      case (Some x)
      then have "pending F = []" by (simp add: F_def deployFunction_def init_state_def)
      with h show ?thesis by simp
    qed simp
    from h have st: "step env i F = run_task env (AwaitStrategy n d p f (Inl e))
        (F\<lparr>pending := take i (pending F) @ drop (Suc i) (pending F)\<rparr>)"
      by (simp add: step_def)
    have "outer (step env i F) = Rejected e"
      unfolding st using run_task_strategy_fields [of env n d p f "Inl e"
          "F\<lparr>pending := take i (pending F) @ drop (Suc i) (pending F)\<rparr>"] h
      by (simp add: reject_fields)
    then have "outer (run env later (step env i F)) = Rejected e"
      using run_rejected [of "step env i F" env later] by simp
    moreover have "deployFunction env (sched @ i # later) = run env later (step env i F)"
      using deployFunction_append [OF ci, of sched "i # later"] by (simp add: F_def run_def)
    ultimately show "outer (deployFunction env (sched @ i # later)) = Rejected e" by simp
  qed
  from a b show ?thesis unfolding F_def by blast
qed

lemma run_idle: "pending s = [] \<Longrightarrow> run env sched s = s"
  by (induction sched) (simp_all add: run_def step_def)

text \<open>
  C10. With no declared function the loop body never runs: nothing is pushed, nothing
  waits for the event loop, the outer promise stays pending under every schedule and
  \<^verbatim>\<open>deploy\<close> is never called.
\<close>

theorem empty_map_never_settles:
  assumes "service_functions env = []"
  shows "outer (deployFunction env sched) = Pending
       \<and> submitted (deployFunction env sched) = []
       \<and> pending (deployFunction env sched) = []
       \<and> populatedFunctions (deployFunction env sched) = []
       \<and> calls (deployFunction env sched) = []"
proof (cases "config_init env")
  case (Some e)
  then show ?thesis by (simp add: deployFunction_def init_state_def)
next
  case None
  have "run env sched init_state = init_state"
    by (rule run_idle) (simp add: init_state_def)
  with None assms show ?thesis
    by (simp add: deployFunction_def init_state_def)
qed


subsection \<open>Runs on the example surroundings\<close>

lemmas eval_defs = deployFunction_def run_def step_def each_body_def getPkg_def checkSize_def
  pkg_choice_def lstat_isDirectory_def statSync_def bindS_def liftE_def bind_err_def spy_def
  cli_log_msg_def init_state_def barrier_check_def push_populated_def resolve_def reject_def
  plain_record_def assign_def getFileContent_def readFileSync_def loadZip_def read_entry_def
  requirements_of_def populated_record_def normalize_events_def normalize_event_def
  first_key_def key_name_def key_val_def values_l_def index_keys_def js_or_def oneMB_def Let_def
  env_example_def env_plain_def env_handler_def env_failing_def env_nondir_def events_example_def
  env_two_failing_def

theorem submission_barrier_witness:
  "pending (deployFunction env_handler [0, 0, 0]) = []
   \<and> unhandled (deployFunction env_handler [0, 0, 0]) = []
   \<and> \<not> is_rejected (outer (deployFunction env_handler [0, 0, 0]))
   \<and> service_functions env_handler \<noteq> []
   \<and> submitted (deployFunction env_handler [0, 0, 0]) =
        [populatedFunctions (deployFunction env_handler [0, 0, 0])]
   \<and> length (populatedFunctions (deployFunction env_handler [0, 0, 0])) =
        length (service_functions env_handler)"
proof -
  have h: "pending (deployFunction env_handler [0, 0, 0]) = []
     \<and> unhandled (deployFunction env_handler [0, 0, 0]) = []
     \<and> \<not> is_rejected (outer (deployFunction env_handler [0, 0, 0]))
     \<and> service_functions env_handler \<noteq> []"
    by (simp add: eval_defs)
  with submission_barrier [of env_handler "[0, 0, 0]"]
  have one: "length (submitted (deployFunction env_handler [0, 0, 0])) = 1"
    and all: "\<forall>p\<in>set (submitted (deployFunction env_handler [0, 0, 0])).
         p = populatedFunctions (deployFunction env_handler [0, 0, 0])
         \<and> length p = length (service_functions env_handler)"
    by blast+
  from one obtain p where p: "submitted (deployFunction env_handler [0, 0, 0]) = [p]"
    by (cases "submitted (deployFunction env_handler [0, 0, 0])") auto
  then have "p \<in> set (submitted (deployFunction env_handler [0, 0, 0]))"
    by simp
  with all have pe: "p = populatedFunctions (deployFunction env_handler [0, 0, 0])"
    and pl: "length p = length (service_functions env_handler)"
    by blast+
  from p have a: "submitted (deployFunction env_handler [0, 0, 0]) =
        [populatedFunctions (deployFunction env_handler [0, 0, 0])]"
    unfolding pe .
  from pl have b: "length (populatedFunctions (deployFunction env_handler [0, 0, 0])) =
        length (service_functions env_handler)"
    unfolding pe .
  from h a b show ?thesis by blast
qed

text \<open>
  C2 as stated fails: here the only branch has completed and its record is in the
  collection, but the strategy's deploy rejected, so \<^verbatim>\<open>deploy\<close> was not called.
\<close>

theorem submission_not_always:
  "pending (deployFunction env_failing [0, 0]) = []
   \<and> length (populatedFunctions (deployFunction env_failing [0, 0])) = length (service_functions env_failing)
   \<and> length (submitted (deployFunction env_failing [0, 0])) \<noteq> 1"
  by (simp add: eval_defs)

theorem strategy_failure_aborts_witness:
  "(''f2'', JObj [(''handler'', JStr ''b.main'')]) \<in> set (service_functions env_two_failing)
   \<and> outer (deployFunction env_two_failing []) = Pending
   \<and> 1 < length (pending (deployFunction env_two_failing []))
   \<and> pending (deployFunction env_two_failing []) ! 1 =
        AwaitStrategy ''f2'' (JObj [(''handler'', JStr ''b.main'')]) (JStr ''a.zip'') ''requirements.txt''
          (Inl (Thrown (JObj [(''handler'', JStr ''b.main'')])))
   \<and> submitted (deployFunction env_two_failing ([] @ 1 # [0, 0, 0])) = []
   \<and> outer (deployFunction env_two_failing ([] @ 1 # [0, 0, 0])) =
        Rejected (Thrown (JObj [(''handler'', JStr ''b.main'')]))"
proof -
  have a: "(''f2'', JObj [(''handler'', JStr ''b.main'')]) \<in> set (service_functions env_two_failing)"
    by (simp add: env_two_failing_def)
  have b: "strategy_fails env_two_failing ''f2'' (JObj [(''handler'', JStr ''b.main'')])"
    by (simp add: strategy_fails_def env_two_failing_def)
  have c: "outer (deployFunction env_two_failing []) = Pending
   \<and> 1 < length (pending (deployFunction env_two_failing []))
   \<and> pending (deployFunction env_two_failing []) ! 1 =
        AwaitStrategy ''f2'' (JObj [(''handler'', JStr ''b.main'')]) (JStr ''a.zip'') ''requirements.txt''
          (Inl (Thrown (JObj [(''handler'', JStr ''b.main'')])))"
    by (simp add: eval_defs)
  from strategy_failure_aborts [OF a b, of "[] @ 1 # [0, 0, 0]"]
  have d: "submitted (deployFunction env_two_failing ([] @ 1 # [0, 0, 0])) = []"
    by blast
  from strategy_failure_aborts [OF a b, of "[]" 1 "''f2''" "JObj [(''handler'', JStr ''b.main'')]"
      "JStr ''a.zip''" "''requirements.txt''" "Thrown (JObj [(''handler'', JStr ''b.main'')])" "[0, 0, 0]"] c
  have e: "outer (deployFunction env_two_failing ([] @ 1 # [0, 0, 0])) =
        Rejected (Thrown (JObj [(''handler'', JStr ''b.main'')]))"
    by blast
  from a c d e show ?thesis by blast
qed

theorem empty_map_never_settles_witness:
  "service_functions env_example = []
   \<and> outer (deployFunction env_example [0, 1, 2]) = Pending
   \<and> submitted (deployFunction env_example [0, 1, 2]) = []
   \<and> pending (deployFunction env_example [0, 1, 2]) = []"
proof -
  have a: "service_functions env_example = []" by (simp add: env_example_def)
  from empty_map_never_settles [OF a, of "[0, 1, 2]"] a show ?thesis by blast
qed

subsection \<open>Functions without a handler\<close>

lemma getPkg_calls: "getPkg env d n s = (r, s') \<Longrightarrow> calls s' = calls s @ [CallGetPkg n]"
  by (auto simp: getPkg_def bindS_def liftE_def spy_def cli_log_msg_def
      split: prod.splits sum.splits if_splits)

lemma checkSize_ok:
  "statSync env pkg = Inr sz \<Longrightarrow>
     \<exists>s'. checkSize env pkg s = (Inr (), s') \<and> core s' = core s
          \<and> calls s' = calls s @ [CallCheckSize pkg]"
  by (simp add: checkSize_def bindS_def liftE_def spy_def cli_log_msg_def core_def)

lemma push_calls: "calls (barrier_check env (push_populated r s)) = calls s"
  by (simp add: barrier_check_def push_populated_def resolve_def)

lemma map_of_plain_record:
  assumes "distinct (map fst d)"
  shows "\<exists>r. plain_record name (JObj d) = JObj r \<and> map_of r = (map_of d)(''id'' \<mapsto> JStr name)"
proof -
  have "map_of (assign (assign [] (JObj d)) (JObj [(''id'', JStr name)])) = (map_of d)(''id'' \<mapsto> JStr name)"
    using assms by (simp add: map_of_assign_obj map_of_rev_distinct)
  then show ?thesis by (simp add: plain_record_def)
qed

text \<open>
  C1 (as amended). For a declaration without a truthy \<^verbatim>\<open>handler\<close> whose artifact
  resolves and can be stat'ed, the loop body calls \<^verbatim>\<open>getPkg\<close> and \<^verbatim>\<open>checkSize\<close>
  and nothing else, pushes a record that is the declaration plus \<^verbatim>\<open>id: name\<close>, and
  leaves no branch waiting for the event loop: no strategy deploy, no archive read.
\<close>

theorem populate_without_handler:
  assumes "js_get (JObj d) ''handler'' = Inr h" and "\<not> truthy h" and "distinct (map fst d)"
    and "getPkg env (JObj d) name s = (Inr pkg, s1)" and "statSync env pkg = Inr sz"
  shows "\<exists>s' r. each_body env name (JObj d) s = (Inr (), s')
        \<and> populatedFunctions s' = populatedFunctions s @ [JObj r]
        \<and> map_of r = (map_of d)(''id'' \<mapsto> JStr name)
        \<and> calls s' = calls s @ [CallGetPkg name, CallCheckSize pkg]
        \<and> filter is_branch (pending s') = filter is_branch (pending s)"
proof -
  from checkSize_ok [OF assms(5), of s1] obtain s2 where
    cs: "checkSize env pkg s1 = (Inr (), s2)" and c2: "core s2 = core s1"
    and k2: "calls s2 = calls s1 @ [CallCheckSize pkg]"
    by blast
  from map_of_plain_record [OF assms(3), of name] obtain r where
    r: "plain_record name (JObj d) = JObj r" "map_of r = (map_of d)(''id'' \<mapsto> JStr name)"
    by blast
  define s' where "s' = barrier_check env (push_populated (JObj r) s2)"
  have b: "each_body env name (JObj d) s = (Inr (), s')"
    unfolding each_body_def s'_def using assms(1,2,4) cs r(1)
    by (simp add: bindS_def liftE_def)
  have c: "core s2 = core s"
    using c2 getPkg_frame [OF assms(4)] by simp
  have "populatedFunctions s' = populatedFunctions s @ [JObj r]"
    unfolding s'_def using core_fields(1) [OF c] by (simp add: push_fields)
  moreover have "calls s' = calls s @ [CallGetPkg name, CallCheckSize pkg]"
    unfolding s'_def using k2 getPkg_calls [OF assms(4)] by (simp add: push_calls)
  moreover have "filter is_branch (pending s') = filter is_branch (pending s)"
    unfolding s'_def using core_fields(3) [OF c] by (simp add: push_fields)
  ultimately show ?thesis using b r(2) by blast
qed

theorem populate_without_handler_witness:
  "js_get (JObj [(''memorySize'', JNum 128)]) ''handler'' = Inr JUndefined
   \<and> \<not> truthy JUndefined \<and> distinct (map fst [(''memorySize'', JNum 128)])
   \<and> getPkg env_plain (JObj [(''memorySize'', JNum 128)]) ''g'' init_state =
        (Inr (JStr ''a.zip''), spy (CallGetPkg ''g'') init_state)
   \<and> statSync env_plain (JStr ''a.zip'') = Inr 1048576
   \<and> (\<exists>s' r. each_body env_plain ''g'' (JObj [(''memorySize'', JNum 128)]) init_state = (Inr (), s')
        \<and> populatedFunctions s' = [JObj r]
        \<and> map_of r = [''memorySize'' \<mapsto> JNum 128, ''id'' \<mapsto> JStr ''g'']
        \<and> calls s' = [CallGetPkg ''g'', CallCheckSize (JStr ''a.zip'')]
        \<and> filter is_branch (pending s') = [])"
proof -
  have a: "js_get (JObj [(''memorySize'', JNum 128)]) ''handler'' = Inr JUndefined" by simp
  have b: "\<not> truthy JUndefined" by simp
  have c: "distinct (map fst [(''memorySize'', JNum 128)])" by simp
  have d: "getPkg env_plain (JObj [(''memorySize'', JNum 128)]) ''g'' init_state =
        (Inr (JStr ''a.zip''), spy (CallGetPkg ''g'') init_state)"
    by (simp add: getPkg_def pkg_choice_def bindS_def liftE_def env_plain_def env_example_def)
  have e: "statSync env_plain (JStr ''a.zip'') = Inr 1048576"
    by (simp add: statSync_def env_plain_def env_example_def)
  from populate_without_handler [OF a b c d e] a b c d e show ?thesis
    by (simp add: init_state_def)
qed

text \<open>
  C1 as stated fails: for a declaration without a handler, \<^verbatim>\<open>getPkg\<close> and
  \<^verbatim>\<open>checkSize\<close> are both called, before the handler is looked at.
\<close>

theorem no_handler_still_resolves:
  "js_get (JObj [(''memorySize'', JNum 128)]) ''handler'' = Inr JUndefined
   \<and> service_functions env_plain = [(''g'', JObj [(''memorySize'', JNum 128)])]
   \<and> calls (deployFunction env_plain []) = [CallGetPkg ''g'', CallCheckSize (JStr ''a.zip'')]"
  by (simp add: eval_defs)

subsection \<open>A package path that is not a directory\<close>

text \<open>
  C5. With an explicit package path that is not a directory and individual packaging,
  \<^verbatim>\<open>getPkg\<close> logs the message and throws for the first function. The exception leaves
  the loop inside the \<^verbatim>\<open>then\<close> callback of \<^verbatim>\<open>kubelessConfig.init()\<close>, whose promise
  nobody holds: \<^verbatim>\<open>deploy\<close> is never called, but \<^verbatim>\<open>reject\<close> is not called either, and
  the promise returned to the caller stays pending under every schedule.
\<close>

theorem invalid_package_layout_hangs:
  assumes "opt_package env = JStr path" and "path \<noteq> []"
    and "truthy (service_package_individually env)"
    and "fs_lstat_isDirectory env path = Inr False"
    and "config_init env = None" and "service_functions env = (name, description) # rest"
  shows "fst (getPkg env description name init_state) = Inl (Error errMsg)
       \<and> submitted (deployFunction env sched) = []
       \<and> cli_log (deployFunction env sched) = [errMsg]
       \<and> unhandled (deployFunction env sched) = [Error errMsg]
       \<and> outer (deployFunction env sched) = Pending"
proof -
  have g: "getPkg env description name init_state =
      (Inl (Error errMsg), cli_log_msg errMsg (spy (CallGetPkg name) init_state))"
    using assms(1-4)
    by (simp add: getPkg_def pkg_choice_def lstat_isDirectory_def bindS_def liftE_def bind_err_def)
  then have b: "each_body env name description init_state =
      (Inl (Error errMsg), cli_log_msg errMsg (spy (CallGetPkg name) init_state))"
    by (simp add: each_body_def bindS_def)
  define s1 where "s1 = (cli_log_msg errMsg (spy (CallGetPkg name) init_state))\<lparr>unhandled := [Error errMsg]\<rparr>"
  have l: "each_functions env (service_functions env) init_state = s1"
    using b by (simp add: assms(6) s1_def cli_log_msg_def spy_def init_state_def)
  have "pending s1 = []"
    by (simp add: s1_def cli_log_msg_def spy_def init_state_def)
  then have "run env sched s1 = s1" by (rule run_idle)
  with l assms(5) have "deployFunction env sched = s1"
    by (simp add: deployFunction_def)
  with g show ?thesis
    by (simp add: s1_def cli_log_msg_def spy_def init_state_def)
qed

theorem invalid_package_layout_hangs_witness:
  "opt_package env_nondir = JStr ''/tmp/pkg.zip'' \<and> ''/tmp/pkg.zip'' \<noteq> []
   \<and> truthy (service_package_individually env_nondir)
   \<and> fs_lstat_isDirectory env_nondir ''/tmp/pkg.zip'' = Inr False
   \<and> config_init env_nondir = None
   \<and> service_functions env_nondir =
        (''f'', JObj [(''handler'', JStr ''h.main''), (''events'', JArr events_example)]) # []
   \<and> submitted (deployFunction env_nondir [0, 0, 0]) = []
   \<and> unhandled (deployFunction env_nondir [0, 0, 0]) = [Error errMsg]
   \<and> outer (deployFunction env_nondir [0, 0, 0]) = Pending"
proof -
  have a: "opt_package env_nondir = JStr ''/tmp/pkg.zip''"
    and b: "''/tmp/pkg.zip'' \<noteq> []"
    and c: "truthy (service_package_individually env_nondir)"
    and d: "fs_lstat_isDirectory env_nondir ''/tmp/pkg.zip'' = Inr False"
    and e: "config_init env_nondir = None"
    and f: "service_functions env_nondir =
        (''f'', JObj [(''handler'', JStr ''h.main''), (''events'', JArr events_example)]) # []"
    by (simp_all add: env_nondir_def env_handler_def env_example_def)
  from invalid_package_layout_hangs [OF a b c d e f, of "[0, 0, 0]"] a b c d e f show ?thesis
    by blast
qed

subsection \<open>A missing dependency manifest\<close>










end
